theory Spec2Isabelle
  imports Main "HOL-Library.Word"
begin

unbundle bit_operations_syntax

section \<open>The RGSS archive backend of filesystem.cpp\<close>

subsection \<open>Data model\<close>

type_synonym byte = "8 word"

text \<open>
  \<^verbatim>\<open>struct RGSS_entryData { qint64 offset; quint64 size; quint32 startMagic; }\<close>.
  The field \<^verbatim>\<open>size\<close> is called \<open>size_e\<close> here, \<open>size\<close> being a constant of HOL.
  \<^verbatim>\<open>offset\<close> is signed in the source; every use adds it to an unsigned 64-bit value, which
  converts it to unsigned first, so the model keeps its bit pattern.
\<close>

record RGSS_entryData =
  offset :: "64 word"
  size_e :: "64 word"
  startMagic :: "32 word"

text \<open>
  Modelled from the spec: the byte source behind a \<^verbatim>\<open>PHYSFS_Io*\<close>, which belongs to the PhysFS
  library and not to filesystem.cpp. The specification calls it a cloneable seekable byte
  source, each clone owned and positioned on its own: here, the bytes of the file and a
  position. A one-byte read at or past the end reads nothing and leaves the destination
  untouched; a seek records the position (its return code is ignored by every caller in
  filesystem.cpp).
\<close>

record raw_io =
  content :: "byte list"
  pos :: nat

text \<open>
  A \<^verbatim>\<open>PHYSFS_Io*\<close> is an address into a store of byte sources, or indeterminate when the
  pointer member was never initialised.
\<close>

datatype io_ptr = Indeterminate | Ptr nat

type_synonym io_store = "raw_io list"

text \<open>
  Undefined behaviour of the C++ is an error value of the model:
  \<open>InvalidIo\<close> a call through an indeterminate or dangling \<^verbatim>\<open>PHYSFS_Io*\<close>,
  \<open>BufferOverflow\<close> an access past the end of a fixed-size buffer,
  \<open>IndeterminateValue\<close> a decision taken on an uninitialised variable.
\<close>

datatype error = InvalidIo | BufferOverflow | IndeterminateValue

record RGSS_entryHandle =
  data :: RGSS_entryData
  currentMagic :: "32 word"
  currentOffset :: "64 word"
  io :: io_ptr

text \<open>
  The two constructors of \<^verbatim>\<open>RGSS_entryHandle\<close>. Neither initialises the member \<^verbatim>\<open>io\<close>:
  the first is followed by an assignment in \<^verbatim>\<open>RGSS_openRead\<close>, the copy constructor is not
  followed by any in \<^verbatim>\<open>RGSS_ioDuplicate\<close>.
\<close>

definition RGSS_entryHandle_new :: "RGSS_entryData \<Rightarrow> RGSS_entryHandle" where
  "RGSS_entryHandle_new d =
     \<lparr>data = d, currentMagic = startMagic d, currentOffset = 0, io = Indeterminate\<rparr>"

definition RGSS_entryHandle_copy :: "RGSS_entryHandle \<Rightarrow> RGSS_entryHandle" where
  "RGSS_entryHandle_copy other =
     \<lparr>data = data other, currentMagic = currentMagic other,
      currentOffset = currentOffset other, io = Indeterminate\<rparr>"

subsection \<open>The byte source\<close>

text \<open>Following a pointer gives its address and the byte source there, if it is a live one.\<close>

definition io_deref :: "io_store \<Rightarrow> io_ptr \<Rightarrow> (nat \<times> raw_io) option" where
  "io_deref st p =
     (case p of Indeterminate \<Rightarrow> None
      | Ptr a \<Rightarrow> (if a < length st then Some (a, st ! a) else None))"

definition raw_seek :: "raw_io \<Rightarrow> 64 word \<Rightarrow> raw_io" where
  "raw_seek r w = r\<lparr>pos := unat w\<rparr>"

definition raw_tell :: "raw_io \<Rightarrow> 64 word" where
  "raw_tell r = word_of_nat (pos r)"

definition raw_read1 :: "raw_io \<Rightarrow> byte option \<times> raw_io" where
  "raw_read1 r =
     (if pos r < length (content r) then (Some (content r ! pos r), r\<lparr>pos := pos r + 1\<rparr>)
      else (None, r))"

text \<open>\<^verbatim>\<open>io->duplicate(io)\<close>: a new byte source on the same file, at a new address.\<close>

definition raw_duplicate :: "io_store \<Rightarrow> raw_io \<Rightarrow> nat \<times> io_store" where
  "raw_duplicate st r = (length st, st @ [r])"

subsection \<open>The keystream\<close>

text \<open>\<^verbatim>\<open>advanceMagic\<close> returns the old word and stores \<open>magic * 7 + 3\<close>; the pair is (returned, stored).\<close>

definition advanceMagic :: "32 word \<Rightarrow> 32 word \<times> 32 word" where
  "advanceMagic magic = (magic, magic * 7 + 3)"

text \<open>The recurrence applied \<open>n\<close> times, as the counting loop of \<^verbatim>\<open>RGSS_ioSeek\<close> does.\<close>

primrec advance_times :: "nat \<Rightarrow> 32 word \<Rightarrow> 32 word" where
  "advance_times 0 magic = magic"
| "advance_times (Suc n) magic = advance_times n (snd (advanceMagic magic))"

subsection \<open>Reading and seeking an entry\<close>

text \<open>
  The loop of \<^verbatim>\<open>RGSS_ioRead\<close>, from offset \<open>o\<close> up to \<open>e = offs + toRead\<close>. A byte the
  source could not deliver is \<open>None\<close> in the output (the local \<^verbatim>\<open>byte\<close> stays uninitialised).
\<close>

function read_loop ::
  "64 word \<Rightarrow> 64 word \<Rightarrow> 32 word \<Rightarrow> raw_io \<Rightarrow> byte option list \<times> 32 word \<times> raw_io" where
  "read_loop o' e magic r =
     (if o' < e then
        (let bitOffset = (ucast (0x8 * (o' mod 4)) :: byte);
             magicByte = (ucast (drop_bit (unat bitOffset) magic AND 0xFF) :: byte);
             (byte, r1) = raw_read1 r;
             out = map_option (\<lambda>b. b XOR magicByte) byte;
             o1 = o' + 1;
             magic1 = (if o1 mod 4 = 0 then snd (advanceMagic magic) else magic);
             (rest, magic2, r2) = read_loop o1 e magic1 r1
         in (out # rest, magic2, r2))
      else ([], magic, r))"
  by pat_completeness auto
termination
proof (relation "measure (\<lambda>(o', e, magic, r). unat e - unat o')")
  show "wf (measure (\<lambda>(o', e, magic, r). unat e - unat o'))" by simp
next
  fix o' e :: "64 word" and magic :: "32 word" and r :: raw_io
  fix bo :: byte and mb :: byte and x :: "byte option \<times> raw_io"
  fix b r1 out o1 magic1
  assume lt: "o' < e" and o1: "o1 = o' + 1"
  from lt have less: "unat o' < unat e" by (simp add: word_less_nat_alt)
  have "unat e < 2 ^ 64" using unsigned_less [of e] by simp
  with less have "unat o' + unat (1 :: 64 word) < 2 ^ LENGTH(64)" by simp
  then have "unat (o' + 1) = unat o' + unat (1 :: 64 word)" by (simp only: unat_add_lem)
  then have "unat (o' + 1) = Suc (unat o')" by simp
  with less show "((o1, e, magic1, r1), (o', e, magic, r))
      \<in> measure (\<lambda>(o', e, magic, r). unat e - unat o')"
    using o1 by simp
qed

text \<open>
  \<^verbatim>\<open>RGSS_ioRead\<close>: the count returned, the bytes stored in the caller's buffer, the handle
  and the store afterwards. The first statement after the clamp calls through \<^verbatim>\<open>entry->io\<close>.
\<close>

definition RGSS_ioRead ::
  "io_store \<Rightarrow> RGSS_entryHandle \<Rightarrow> 64 word \<Rightarrow>
     error + (64 word \<times> byte option list \<times> RGSS_entryHandle \<times> io_store)" where
  "RGSS_ioRead st entry len =
     (let toRead = min (size_e (data entry) - currentOffset entry) len;
          offs = currentOffset entry
      in case io_deref st (io entry) of
           None \<Rightarrow> Inl InvalidIo
         | Some (a, r) \<Rightarrow>
             (let r0 = raw_seek r (offset (data entry) + offs);
                  (buffer, magic, r1) = read_loop offs (offs + toRead) (currentMagic entry) r0
              in Inr (toRead, buffer,
                      entry\<lparr>currentMagic := magic, currentOffset := currentOffset entry + toRead\<rparr>,
                      st[a := r1])))"

text \<open>\<^verbatim>\<open>RGSS_ioSeek\<close>: the value returned (1 success, 0 failure), the handle and the store.\<close>

definition RGSS_ioSeek ::
  "io_store \<Rightarrow> RGSS_entryHandle \<Rightarrow> 64 word \<Rightarrow> error + (int \<times> RGSS_entryHandle \<times> io_store)" where
  "RGSS_ioSeek st entry target =
     (if target = currentOffset entry then Inr (1, entry, st)
      else if target > size_e (data entry) - 1 then Inr (0, entry, st)
      else
        (let entry1 = (if target < currentOffset entry
                       then entry\<lparr>currentOffset := 0, currentMagic := startMagic (data entry)\<rparr>
                       else entry);
             dwordsSought = (target - currentOffset entry1) div 4;
             entry2 = entry1\<lparr>currentMagic := advance_times (unat dwordsSought) (currentMagic entry1)\<rparr>;
             entry3 = entry2\<lparr>currentOffset := target\<rparr>
         in case io_deref st (io entry3) of
              None \<Rightarrow> Inl InvalidIo
            | Some (a, r) \<Rightarrow>
                Inr (1, entry3,
                     st[a := raw_seek r (offset (data entry3) + currentOffset entry3)])))"

definition RGSS_ioTell :: "RGSS_entryHandle \<Rightarrow> 64 word" where
  "RGSS_ioTell entry = currentOffset entry"

definition RGSS_ioLength :: "RGSS_entryHandle \<Rightarrow> 64 word" where
  "RGSS_ioLength entry = size_e (data entry)"

text \<open>
  \<^verbatim>\<open>RGSS_ioDuplicate\<close>: the new \<^verbatim>\<open>PHYSFS_Io\<close> is a copy of the template whose opaque is
  \<^verbatim>\<open>new RGSS_entryHandle(*entry)\<close>; nothing else is assigned.
\<close>

definition RGSS_ioDuplicate :: "RGSS_entryHandle \<Rightarrow> RGSS_entryHandle" where
  "RGSS_ioDuplicate entry = RGSS_entryHandle_copy entry"

subsection \<open>Parsing the archive\<close>

text \<open>
  \<^verbatim>\<open>struct RGSS_archiveData\<close>. A \<^verbatim>\<open>QHash\<close> is a map; \<^verbatim>\<open>insert\<close> replaces the value of a
  key that is already present. A key is the \<^verbatim>\<open>QByteArray\<close> built from a C string.
\<close>

record RGSS_archiveData =
  archiveIo :: io_ptr
  entryHash :: "byte list \<rightharpoonup> RGSS_entryData"
  dirHash :: "byte list \<rightharpoonup> bool"

text \<open>
  \<^verbatim>\<open>readUint32\<close>: up to four bytes are read into \<^verbatim>\<open>char buff[4]\<close> and assembled, each
  \<^verbatim>\<open>char\<close> promoted to \<^verbatim>\<open>int\<close> (sign-extended), shifted and masked. The result is \<open>Some\<close>
  when the function returns true (four bytes read); when it returns false the value it
  stored was computed from an uninitialised buffer, which is \<open>None\<close>.
\<close>

definition readUint32 :: "raw_io \<Rightarrow> 32 word option \<times> raw_io" where
  "readUint32 r =
     (let buff = take 4 (drop (pos r) (content r));
          count = length buff;
          r1 = r\<lparr>pos := pos r + count\<rparr>
      in if count = 4
         then (Some ((push_bit 0x00 (scast (buff ! 0) :: 32 word) AND 0x000000FF) OR
                     (push_bit 0x08 (scast (buff ! 1) :: 32 word) AND 0x0000FF00) OR
                     (push_bit 0x10 (scast (buff ! 2) :: 32 word) AND 0x00FF0000) OR
                     (push_bit 0x18 (scast (buff ! 3) :: 32 word) AND 0xFF000000)), r1)
         else (None, r1))"

definition RGSS_HEADER_1 :: "32 word" where
  "RGSS_HEADER_1 = 0x53534752"

definition RGSS_HEADER_2 :: "32 word" where
  "RGSS_HEADER_2 = 0x1004441"

definition RGSS_MAGIC :: "32 word" where
  "RGSS_MAGIC = 0xDEADCAFE"

text \<open>
  The C string held in a \<^verbatim>\<open>char\<close> buffer: the bytes before the first NUL. It is \<open>None\<close>
  when an uninitialised cell comes first or the buffer holds no NUL.
\<close>

fun c_str :: "byte option list \<Rightarrow> byte list option" where
  "c_str [] = None"
| "c_str (None # xs) = None"
| "c_str (Some c # xs) = (if c = 0 then Some [] else map_option ((#) c) (c_str xs))"

text \<open>
  The filename loop \<^verbatim>\<open>for (i = 0; i < nameLen; ++i)\<close>; the first argument counts the
  iterations left, \<open>i\<close> is the index. The buffer is \<^verbatim>\<open>static char nameBuf[512]\<close>: a store at
  an index that is not below its length is out of bounds. A byte the source could not
  deliver leaves \<^verbatim>\<open>c\<close> uninitialised, and so the cell written from it. \<open>name_cell\<close> is
  what the body stores: \<^verbatim>\<open>c ^ (advanceMagic(magic) & 0xFF)\<close>, a backslash replaced by a slash.
\<close>

definition name_cell :: "32 word \<Rightarrow> byte option \<Rightarrow> byte option" where
  "name_cell old c =
     (let x = map_option (\<lambda>c. c XOR (ucast (old AND 0xFF) :: byte)) c
      in if x = Some 0x5C then Some 0x2F else x)"

fun name_loop ::
  "nat \<Rightarrow> nat \<Rightarrow> raw_io \<Rightarrow> 32 word \<Rightarrow> byte option list \<Rightarrow>
     error + (raw_io \<times> 32 word \<times> byte option list)" where
  "name_loop 0 i r magic nameBuf = Inr (r, magic, nameBuf)"
| "name_loop (Suc k) i r magic nameBuf =
     (let (c, r1) = raw_read1 r;
          (old, magic1) = advanceMagic magic
      in if length nameBuf \<le> i then Inl BufferOverflow
         else name_loop k (i + 1) r1 magic1 (nameBuf[i := name_cell old c]))"

text \<open>
  The directory loop \<^verbatim>\<open>for (i = nameLen; i > 0; i--)\<close>: each slash, from the right, is
  overwritten with NUL and the prefix before it registered.
\<close>

fun dir_loop ::
  "nat \<Rightarrow> byte option list \<Rightarrow> (byte list \<rightharpoonup> bool) \<Rightarrow>
     error + (byte option list \<times> (byte list \<rightharpoonup> bool))" where
  "dir_loop 0 nameBuf dirs = Inr (nameBuf, dirs)"
| "dir_loop (Suc j) nameBuf dirs =
     (if length nameBuf \<le> Suc j then Inl BufferOverflow
      else
        (case nameBuf ! Suc j of
           None \<Rightarrow> Inl IndeterminateValue
         | Some c \<Rightarrow>
             if c = 0x2F then
               (let nameBuf1 = nameBuf[Suc j := Some 0]
                in case c_str nameBuf1 of
                     None \<Rightarrow> Inl IndeterminateValue
                   | Some k \<Rightarrow>
                       dir_loop j nameBuf1 (if dirs k = None then dirs(k \<mapsto> True) else dirs))
             else dir_loop j nameBuf dirs))"

text \<open>
  The first half of one iteration of the \<^verbatim>\<open>while (true)\<close> loop, after the length field
  \<open>w\<close> was read: the name, its terminator, the size field and the \<^verbatim>\<open>RGSS_entryData\<close>.
  It gives the key under which the entry is inserted, the entry, the decrypted
  \<^verbatim>\<open>nameLen\<close>, and the byte source, keystream word and buffer at that point.
\<close>

definition read_entry ::
  "32 word \<Rightarrow> raw_io \<Rightarrow> 32 word \<Rightarrow> byte option list \<Rightarrow>
     error + (byte list \<times> RGSS_entryData \<times> 32 word \<times> raw_io \<times> 32 word \<times> byte option list)" where
  "read_entry w r magic nameBuf =
     (let (old, magic1) = advanceMagic magic;
          nameLen = w XOR old
      in case name_loop (unat nameLen) 0 r magic1 nameBuf of
           Inl e \<Rightarrow> Inl e
         | Inr (r1, magic2, nameBuf1) \<Rightarrow>
             if length nameBuf1 \<le> unat nameLen then Inl BufferOverflow
             else
               (let nameBuf2 = nameBuf1[unat nameLen := Some 0];
                    (w2, r2) = readUint32 r1;
                    (old2, magic3) = advanceMagic magic2
                in case w2 of
                     None \<Rightarrow> Inl IndeterminateValue
                   | Some w3 \<Rightarrow>
                       (let entrySize = w3 XOR old2;
                            entry = \<lparr>offset = raw_tell r2, size_e = ucast entrySize,
                                     startMagic = magic3\<rparr>
                        in case c_str nameBuf2 of
                             None \<Rightarrow> Inl IndeterminateValue
                           | Some key \<Rightarrow> Inr (key, entry, nameLen, r2, magic3, nameBuf2))))"

text \<open>One whole iteration: the insertion, the directory loop and the seek to the next entry.\<close>

definition parse_entry ::
  "32 word \<Rightarrow> raw_io \<Rightarrow> 32 word \<Rightarrow> byte option list \<Rightarrow> RGSS_archiveData \<Rightarrow>
     error + (raw_io \<times> 32 word \<times> byte option list \<times> RGSS_archiveData)" where
  "parse_entry w r magic nameBuf d =
     (case read_entry w r magic nameBuf of
        Inl e \<Rightarrow> Inl e
      | Inr (key, entry, nameLen, r2, magic3, nameBuf2) \<Rightarrow>
          (let entries = (entryHash d)(key \<mapsto> entry)
           in case dir_loop (unat nameLen) nameBuf2 (dirHash d) of
                Inl e \<Rightarrow> Inl e
              | Inr (nameBuf3, dirs) \<Rightarrow>
                  Inr (raw_seek r2 (offset entry + size_e entry), magic3, nameBuf3,
                       d\<lparr>entryHash := entries, dirHash := dirs\<rparr>)))"

text \<open>
  The \<^verbatim>\<open>while (true)\<close> loop, with fuel: \<open>None\<close> says that the fuel did not suffice. The loop
  leaves when the length field cannot be read whole.
\<close>

fun parse_loop ::
  "nat \<Rightarrow> raw_io \<Rightarrow> 32 word \<Rightarrow> byte option list \<Rightarrow> RGSS_archiveData \<Rightarrow>
     (error + (raw_io \<times> RGSS_archiveData)) option" where
  "parse_loop 0 r magic nameBuf d = None"
| "parse_loop (Suc fuel) r magic nameBuf d =
     (case readUint32 r of
        (None, r1) \<Rightarrow> Some (Inr (r1, d))
      | (Some w, r1) \<Rightarrow>
          (case parse_entry w r1 magic nameBuf d of
             Inl e \<Rightarrow> Some (Inl e)
           | Inr (r2, magic2, nameBuf2, d2) \<Rightarrow> parse_loop fuel r2 magic2 nameBuf2 d2))"

text \<open>
  \<^verbatim>\<open>RGSS_openArchive\<close>. The result is \<open>None\<close> for the null pointer returned when the archive
  is declined. \<open>nameBuf\<close> is what the static buffer holds when the call starts. Both header
  words are read before the test \<^verbatim>\<open>header1 != RGSS_HEADER_1 || header2 != RGSS_HEADER_2\<close>,
  which looks at the second word only when the first one matches; a header word that could
  not be read whole is uninitialised when the test looks at it.
\<close>

definition RGSS_openArchive ::
  "nat \<Rightarrow> byte option list \<Rightarrow> io_store \<Rightarrow> io_ptr \<Rightarrow> bool \<Rightarrow>
     (error + (RGSS_archiveData option \<times> io_store)) option" where
  "RGSS_openArchive fuel nameBuf st p forWrite =
     (if forWrite then Some (Inr (None, st))
      else
        (case io_deref st p of
           None \<Rightarrow> Some (Inl InvalidIo)
         | Some (a, r) \<Rightarrow>
             (let (header1, r1) = readUint32 r;
                  (header2, r2) = readUint32 r1
              in case header1 of
                   None \<Rightarrow> Some (Inl IndeterminateValue)
                 | Some h1 \<Rightarrow>
                     if h1 \<noteq> RGSS_HEADER_1 then Some (Inr (None, st[a := r2]))
                     else
                       (case header2 of
                          None \<Rightarrow> Some (Inl IndeterminateValue)
                        | Some h2 \<Rightarrow>
                            if h2 \<noteq> RGSS_HEADER_2 then Some (Inr (None, st[a := r2]))
                            else
                              (case parse_loop fuel r2 RGSS_MAGIC nameBuf
                                      \<lparr>archiveIo = p, entryHash = Map.empty,
                                       dirHash = Map.empty\<rparr> of
                                 None \<Rightarrow> None
                               | Some (Inl e) \<Rightarrow> Some (Inl e)
                               | Some (Inr (r3, d)) \<Rightarrow> Some (Inr (Some d, st[a := r3])))))))"

text \<open>
  \<^verbatim>\<open>RGSS_openRead\<close>: \<open>None\<close> for the null pointer when the name is not a key; otherwise a
  new handle on the entry, whose \<^verbatim>\<open>io\<close> is a duplicate of the archive's byte source.
\<close>

definition RGSS_openRead ::
  "io_store \<Rightarrow> RGSS_archiveData \<Rightarrow> byte list \<Rightarrow>
     error + (RGSS_entryHandle option \<times> io_store)" where
  "RGSS_openRead st d filename =
     (case entryHash d filename of
        None \<Rightarrow> Inr (None, st)
      | Some e \<Rightarrow>
          (case io_deref st (archiveIo d) of
             None \<Rightarrow> Inl InvalidIo
           | Some (a, r) \<Rightarrow>
               (let entry = RGSS_entryHandle_new e;
                    (a1, st1) = raw_duplicate st r
                in Inr (Some (entry\<lparr>io := Ptr a1\<rparr>), st1))))"

datatype PHYSFS_FileType = PHYSFS_FILETYPE_REGULAR | PHYSFS_FILETYPE_DIRECTORY

record PHYSFS_Stat =
  filesize :: "64 word"
  modtime :: "64 word"
  createtime :: "64 word"
  accesstime :: "64 word"
  filetype :: PHYSFS_FileType
  readonly :: int

text \<open>\<^verbatim>\<open>RGSS_stat\<close>: the value returned and, on success, what it stored in \<^verbatim>\<open>*stat\<close>.\<close>

definition RGSS_stat :: "RGSS_archiveData \<Rightarrow> byte list \<Rightarrow> int \<times> PHYSFS_Stat option" where
  "RGSS_stat d filename =
     (let hasFile = (entryHash d filename \<noteq> None);
          hasDir = (dirHash d filename \<noteq> None)
      in if \<not> hasFile \<and> \<not> hasDir then (0, None)
         else
           (case entryHash d filename of
              Some entry \<Rightarrow>
                (1, Some \<lparr>filesize = size_e entry, modtime = 0, createtime = 0, accesstime = 0,
                          filetype = PHYSFS_FILETYPE_REGULAR, readonly = 1\<rparr>)
            | None \<Rightarrow>
                (1, Some \<lparr>filesize = 0, modtime = 0, createtime = 0, accesstime = 0,
                          filetype = PHYSFS_FILETYPE_DIRECTORY, readonly = 1\<rparr>)))"

subsection \<open>The facade: completing a file name\<close>

text \<open>
  Modelled from the spec: the enumeration \<^verbatim>\<open>FileSystem::FileType\<close>, declared in filesystem.h,
  which is not among the sources at hand. The specification names the categories image,
  audio and font; the table \<^verbatim>\<open>fileExtensions\<close> is indexed by the enumeration and has three
  rows in that order, so it is taken to be \<open>Image = 0\<close>, \<open>Audio = 1\<close>, \<open>Font = 2\<close>, followed
  by \<open>Undefined\<close>.
  \<open>Image\<close> is written \<open>Image_ft\<close>, the plain name being the relational image of HOL.
\<close>

datatype FileType = Image_ft | Audio | Font | Undefined

definition imgExt :: "string list" where
  "imgExt = [''jpg'', ''png'']"

definition audExt :: "string list" where
  "audExt = [''mp3'', ''ogg'', ''wav'', ''wma'']"

definition fonExt :: "string list" where
  "fonExt = [''ttf'']"

fun fileExtensions :: "FileType \<Rightarrow> string list" where
  "fileExtensions Image_ft = imgExt"
| "fileExtensions Audio = audExt"
| "fileExtensions Font = fonExt"
| "fileExtensions Undefined = []"

text \<open>
  \<^verbatim>\<open>snprintf(buff, sizeof(buff), "%s.%s", filename, ext)\<close> with \<^verbatim>\<open>static char buff[1024]\<close>:
  at most 1023 characters are stored before the terminator.
\<close>

definition snprintf_buff :: "string \<Rightarrow> string \<Rightarrow> string" where
  "snprintf_buff filename ext = take 1023 (filename @ ''.'' @ ext)"

text \<open>
  The loop over the extensions of \<^verbatim>\<open>completeFileName\<close>. \<^verbatim>\<open>PHYSFS_exists\<close> belongs to
  PhysFS; what it answers for each name is the parameter \<open>ex\<close>.
\<close>

fun ext_loop :: "(string \<Rightarrow> bool) \<Rightarrow> string \<Rightarrow> string list \<Rightarrow> string option" where
  "ext_loop ex filename [] = None"
| "ext_loop ex filename (ext # exts) =
     (let buff = snprintf_buff filename ext
      in if ex buff then Some buff else ext_loop ex filename exts)"

text \<open>\<^verbatim>\<open>completeFileName\<close>: \<open>None\<close> is the null pointer.\<close>

definition completeFileName :: "(string \<Rightarrow> bool) \<Rightarrow> string \<Rightarrow> FileType \<Rightarrow> string option" where
  "completeFileName ex filename type =
     (if ex filename then Some filename
      else if type \<noteq> Undefined then ext_loop ex filename (fileExtensions type)
      else None)"

text \<open>
  Modelled from the spec: the class \<^verbatim>\<open>Exception\<close>, declared in exception.h, which is not
  among the sources at hand. The specification has the error carry the logical name that
  was asked for; here an exception is what the \<^verbatim>\<open>throw\<close> is given: its type, its format
  string and the arguments of the format.
\<close>

datatype exc_type = NoFileError | PHYSFSError

datatype exc = Exception exc_type string "string list"

text \<open>
  \<^verbatim>\<open>openReadInt\<close>. \<^verbatim>\<open>PHYSFS_openRead\<close> and \<^verbatim>\<open>PHYSFS_getLastError\<close> are the parameters
  \<open>openRead\<close> (\<open>None\<close> for a null handle) and \<open>lastError\<close>.
\<close>

definition openReadInt ::
  "(string \<Rightarrow> bool) \<Rightarrow> (string \<Rightarrow> 'h option) \<Rightarrow> string \<Rightarrow> string \<Rightarrow> FileType \<Rightarrow> exc + 'h" where
  "openReadInt ex openRead lastError filename type =
     (case completeFileName ex filename type of
        None \<Rightarrow> Inl (Exception NoFileError ''No such file or directory - %s'' [filename])
      | Some foundName \<Rightarrow>
          (case openRead foundName of
             None \<Rightarrow> Inl (Exception PHYSFSError ''PhysFS: %s'' [lastError])
           | Some handle \<Rightarrow> Inr handle))"

text \<open>\<^verbatim>\<open>FileSystem::exists\<close>.\<close>

definition FileSystem_exists :: "(string \<Rightarrow> bool) \<Rightarrow> string \<Rightarrow> FileType \<Rightarrow> bool" where
  "FileSystem_exists ex filename type = (completeFileName ex filename type \<noteq> None)"

subsection \<open>The invariant of the keystream, and a small archive\<close>

text \<open>
  The invariant the specification asks of every open handle: the keystream word is the
  start word advanced once for every whole block of four bytes before the cursor.
\<close>

definition magic_inv :: "RGSS_entryHandle \<Rightarrow> bool" where
  "magic_inv entry =
     (currentMagic entry =
        ((\<lambda>m. m * 7 + 3) ^^ (unat (currentOffset entry) div 4)) (startMagic (data entry)))"

text \<open>
  An archive of 49 bytes with three entries: \<^verbatim>\<open>a\b\<close> holding \<^verbatim>\<open>xy\<close>, \<^verbatim>\<open>a/b\<close> holding
  \<^verbatim>\<open>ABCDEFGH\<close> (at byte 32, start word \<open>0x9A58C296\<close>) and the empty \<^verbatim>\<open>c\<close> (at byte 49).
\<close>

definition ex_bytes :: "byte list" where
  "ex_bytes =
     [0x52, 0x47, 0x53, 0x53, 0x41, 0x44, 0x00, 0x01,
      0xFD, 0xCA, 0xAD, 0xDE, 0x94, 0xEA, 0x9F, 0xEC, 0xDC, 0xFC, 0x7B,
      0xFD, 0x73,
      0x86, 0x0A, 0xEA, 0x63, 0xC7, 0xA2, 0xBC, 0x1D, 0xAE, 0x0C, 0x16,
      0xD7, 0x80, 0x1B, 0xDE, 0x58, 0x14, 0x2A, 0x70,
      0x97, 0xC2, 0x58, 0x9A, 0x7E, 0xCE, 0x3E, 0xFD, 0x8A]"

definition ex_nameBuf :: "byte option list" where
  "ex_nameBuf = replicate 512 (Some 0)"

text \<open>
  The store once the archive is parsed and one entry opened: the archive's byte source at
  address 0 and the handle's duplicate at address 1, at positions \<open>p\<close> and \<open>q\<close>.
\<close>

definition ex_store :: "nat \<Rightarrow> nat \<Rightarrow> io_store" where
  "ex_store p q = [\<lparr>content = ex_bytes, pos = p\<rparr>, \<lparr>content = ex_bytes, pos = q\<rparr>]"

definition ex_handle :: RGSS_entryHandle where
  "ex_handle = \<lparr>data = \<lparr>offset = 32, size_e = 8, startMagic = 0x9A58C296\<rparr>,
      currentMagic = 0x9A58C296, currentOffset = 0, io = Ptr 1\<rparr>"

definition ex_empty_handle :: RGSS_entryHandle where
  "ex_empty_handle = \<lparr>data = \<lparr>offset = 49, size_e = 0, startMagic = 0xCCECB7A5\<rparr>,
      currentMagic = 0xCCECB7A5, currentOffset = 0, io = Ptr 1\<rparr>"

text \<open>
  A file name of 1022 characters, \<^verbatim>\<open>file\<close> below 509 directories \<^verbatim>\<open>d\<close>, and a search path in
  which only that name followed by a single dot exists.
\<close>

definition ex_long_name :: string where
  "ex_long_name = concat (replicate 509 ''d/'') @ ''file''"

definition ex_long_exists :: "string \<Rightarrow> bool" where
  "ex_long_exists s = (s = ex_long_name @ ''.'')"

text \<open>
  A file name of 1020 characters, \<^verbatim>\<open>file\<close> below 508 directories \<^verbatim>\<open>d\<close>, and a search path in
  which only that name followed by \<^verbatim>\<open>.png\<close> exists.
\<close>

definition ex_png_name :: string where
  "ex_png_name = concat (replicate 508 ''d/'') @ ''file''"

definition ex_png_exists :: "string \<Rightarrow> bool" where
  "ex_png_exists s = (s = ex_png_name @ ''.png'')"

text \<open>
  The entry table of an archive as the parser walks it: for every iteration of the loop, in
  order, the key and the \<^verbatim>\<open>RGSS_entryData\<close> that the iteration inserts. It follows
  \<open>parse_loop\<close> step by step and stops with the same errors.
\<close>

fun entry_table ::
  "nat \<Rightarrow> raw_io \<Rightarrow> 32 word \<Rightarrow> byte option list \<Rightarrow> RGSS_archiveData \<Rightarrow>
     (error + (byte list \<times> RGSS_entryData) list) option" where
  "entry_table 0 r magic nameBuf d = None"
| "entry_table (Suc fuel) r magic nameBuf d =
     (case readUint32 r of
        (None, r1) \<Rightarrow> Some (Inr [])
      | (Some w, r1) \<Rightarrow>
          (case read_entry w r1 magic nameBuf of
             Inl e \<Rightarrow> Some (Inl e)
           | Inr (key, entry, rest) \<Rightarrow>
               (case parse_entry w r1 magic nameBuf d of
                  Inl e \<Rightarrow> Some (Inl e)
                | Inr (r2, magic2, nameBuf2, d2) \<Rightarrow>
                    (case entry_table fuel r2 magic2 nameBuf2 d2 of
                       None \<Rightarrow> None
                     | Some (Inl e) \<Rightarrow> Some (Inl e)
                     | Some (Inr es) \<Rightarrow> Some (Inr ((key, entry) # es))))))"

text \<open>The entry table of the example archive.\<close>

definition ex_table :: "(byte list \<times> RGSS_entryData) list" where
  "ex_table =
     [([0x61, 0x2F, 0x62], \<lparr>offset = 19, size_e = 2, startMagic = 0x63EA0A85\<rparr>),
      ([0x61, 0x2F, 0x62], \<lparr>offset = 32, size_e = 8, startMagic = 0x9A58C296\<rparr>),
      ([0x63], \<lparr>offset = 49, size_e = 0, startMagic = 0xCCECB7A5\<rparr>)]"

section \<open>Properties\<close>

subsection \<open>Keystream and word arithmetic\<close>

lemma advance_times_funpow: "advance_times n m = ((\<lambda>x. x * 7 + 3) ^^ n) m"
proof (induction n arbitrary: m)
  case 0
  show ?case by simp
next
  case (Suc n)
  have "advance_times (Suc n) m = ((\<lambda>x. x * 7 + 3) ^^ n) (m * 7 + 3)"
    using Suc [of "m * 7 + 3"] by (simp add: advanceMagic_def)
  also have "\<dots> = ((\<lambda>x. x * 7 + 3) ^^ Suc n) m"
    by (simp only: funpow_Suc_right o_apply)
  finally show ?case .
qed

lemma advance_times_add: "advance_times a (advance_times b m) = advance_times (a + b) m"
  by (induction b arbitrary: m) simp_all

lemma unat_mod4: "unat ((w :: 64 word) mod 4) = unat w mod 4"
  by (simp add: unat_mod)

lemma unat_bitOffset: "unat (ucast (0x8 * ((w :: 64 word) mod 4)) :: 8 word) = 8 * (unat w mod 4)"
proof -
  have lt: "unat w mod 4 < 4" by simp
  have "unat (8 * (w mod 4)) = (8 * (unat w mod 4)) mod 2 ^ 64"
    by (simp add: unat_word_ariths unat_mod)
  also have "\<dots> = 8 * (unat w mod 4)" using lt by simp
  finally have a: "unat (8 * (w mod 4)) = 8 * (unat w mod 4)" .
  have "unat (ucast (8 * (w mod 4)) :: 8 word) = unat (8 * (w mod 4)) mod 2 ^ 8"
    by (simp add: unsigned_ucast_eq take_bit_eq_mod)
  also have "\<dots> = 8 * (unat w mod 4)" using a lt by simp
  finally show ?thesis by simp
qed

lemma word_succ_unat: "(w :: 64 word) < e \<Longrightarrow> unat (w + 1) = Suc (unat w)"
proof -
  assume lt: "w < e"
  then have less: "unat w < unat e" by (simp add: word_less_nat_alt)
  have "unat e < 2 ^ 64" using unsigned_less [of e] by simp
  with less have "unat w + unat (1 :: 64 word) < 2 ^ LENGTH(64)" by simp
  then have "unat (w + 1) = unat w + unat (1 :: 64 word)" by (simp only: unat_add_lem)
  then show ?thesis by simp
qed

lemma succ_mod4: "(w :: 64 word) < e \<Longrightarrow> ((w + 1) mod 4 = 0) = (Suc (unat w) mod 4 = 0)"
proof -
  assume lt: "w < e"
  have "((w + 1) mod 4 = 0) = (unat ((w + 1) mod 4) = 0)" by (simp add: unat_0_iff)
  also have "\<dots> = (Suc (unat w) mod 4 = 0)" using word_succ_unat [OF lt] by (simp add: unat_mod)
  finally show ?thesis .
qed

subsection \<open>The read loop in closed form\<close>

declare read_loop.simps [simp del]

lemma read_loop_stop: "\<not> o' < e \<Longrightarrow> read_loop o' e magic r = ([], magic, r)"
  by (subst read_loop.simps) simp

lemma read_loop_step:
  "o' < e \<Longrightarrow> read_loop o' e magic r =
     (map_option (\<lambda>b. b XOR (ucast (drop_bit (8 * (unat o' mod 4)) magic AND 0xFF) :: byte))
        (fst (raw_read1 r)) #
      fst (read_loop (o' + 1) e (if Suc (unat o') mod 4 = 0 then magic * 7 + 3 else magic)
             (snd (raw_read1 r))),
      snd (read_loop (o' + 1) e (if Suc (unat o') mod 4 = 0 then magic * 7 + 3 else magic)
             (snd (raw_read1 r))))"
  by (subst read_loop.simps)
     (simp add: Let_def unat_bitOffset succ_mod4 advanceMagic_def split: prod.splits)

lemma advance_step_div:
  "(if Suc n mod 4 = 0 then m * 7 + 3 else m) = advance_times (Suc n div 4 - n div 4) m"
proof (cases "Suc n mod 4 = 0")
  case True
  then have "Suc n div 4 = Suc (n div 4)" by presburger
  then show ?thesis using True by (simp add: advanceMagic_def)
next
  case False
  then have "Suc n div 4 = n div 4" by presburger
  then show ?thesis using False by simp
qed

lemma read_loop_magic:
  "o' \<le> e \<Longrightarrow> fst (snd (read_loop o' e magic r)) = advance_times (unat e div 4 - unat o' div 4) magic"
proof (induction "unat e - unat o'" arbitrary: o' magic r)
  case 0
  then have "\<not> o' < e" by (simp add: word_less_nat_alt word_le_nat_alt)
  moreover from 0 have "unat e = unat o'" by (simp add: word_le_nat_alt)
  ultimately show ?case by (simp add: read_loop_stop)
next
  case (Suc n)
  then have lt: "o' < e" by (simp add: word_less_nat_alt)
  have su: "unat (o' + 1) = Suc (unat o')" by (rule word_succ_unat [OF lt])
  have le: "o' + 1 \<le> e" using lt by (rule inc_le)
  have n: "n = unat e - unat (o' + 1)" using Suc(2) su by simp
  have d: "unat o' div 4 \<le> Suc (unat o') div 4" by (simp add: div_le_mono)
  have d2: "Suc (unat o') div 4 \<le> unat e div 4"
    using le su by (simp add: word_le_nat_alt div_le_mono)
  show ?case
    using Suc(1) [OF n le] d d2
    by (simp add: read_loop_step [OF lt] su advance_step_div advance_times_add)
qed

lemma read_loop_length:
  "o' \<le> e \<Longrightarrow> length (fst (read_loop o' e magic r)) = unat e - unat o'"
proof (induction "unat e - unat o'" arbitrary: o' magic r)
  case 0
  then have "\<not> o' < e" by (simp add: word_less_nat_alt word_le_nat_alt)
  with 0 show ?case by (simp add: read_loop_stop)
next
  case (Suc n)
  then have lt: "o' < e" by (simp add: word_less_nat_alt)
  have su: "unat (o' + 1) = Suc (unat o')" by (rule word_succ_unat [OF lt])
  have le: "o' + 1 \<le> e" using lt by (rule inc_le)
  have n: "n = unat e - unat (o' + 1)" using Suc(2) su by simp
  show ?case using Suc(1) [OF n le] Suc(2) su by (simp add: read_loop_step [OF lt])
qed

lemma raw_read1_fst:
  "fst (raw_read1 r) = (if pos r < length (content r) then Some (content r ! pos r) else None)"
  by (simp add: raw_read1_def)

lemma raw_read1_snd:
  "snd (raw_read1 r) = r\<lparr>pos := (if pos r < length (content r) then Suc (pos r) else pos r)\<rparr>"
  by (simp add: raw_read1_def)

lemma read_loop_nth:
  "k < unat e - unat o' \<Longrightarrow>
   fst (read_loop o' e magic r) ! k =
     map_option
       (\<lambda>b. b XOR (ucast (drop_bit (8 * ((unat o' + k) mod 4))
                      (advance_times ((unat o' + k) div 4 - unat o' div 4) magic) AND 0xFF) :: byte))
       (if pos r + k < length (content r) then Some (content r ! (pos r + k)) else None)"
proof (induction k arbitrary: o' magic r)
  case 0
  then have lt: "o' < e" by (simp add: word_less_nat_alt)
  show ?case by (simp add: read_loop_step [OF lt] raw_read1_fst)
next
  case (Suc k)
  then have lt: "o' < e" by (simp add: word_less_nat_alt)
  have su: "unat (o' + 1) = Suc (unat o')" by (rule word_succ_unat [OF lt])
  have k: "k < unat e - unat (o' + 1)" using Suc(2) su by simp
  have d: "unat o' div 4 \<le> Suc (unat o') div 4" by (simp add: div_le_mono)
  have d2: "Suc (unat o') div 4 \<le> Suc (unat o' + k) div 4" by (simp add: div_le_mono)
  have m: "advance_times (Suc (unat o' + k) div 4 - Suc (unat o') div 4)
             (if Suc (unat o') mod 4 = 0 then magic * 7 + 3 else magic) =
           advance_times (Suc (unat o' + k) div 4 - unat o' div 4) magic"
    using d d2 by (simp only: advance_step_div advance_times_add) simp
  show ?case
    using Suc(1) [OF k, of "if Suc (unat o') mod 4 = 0 then magic * 7 + 3 else magic"
        "snd (raw_read1 r)"]
    by (simp add: read_loop_step [OF lt] su m raw_read1_snd)
qed

lemma read_loop_raw:
  "o' \<le> e \<Longrightarrow> snd (snd (read_loop o' e magic r)) =
     r\<lparr>pos := max (pos r) (min (pos r + (unat e - unat o')) (length (content r)))\<rparr>"
proof (induction "unat e - unat o'" arbitrary: o' magic r)
  case 0
  then have "\<not> o' < e" by (simp add: word_less_nat_alt word_le_nat_alt)
  with 0 show ?case by (simp add: read_loop_stop)
next
  case (Suc n)
  then have lt: "o' < e" by (simp add: word_less_nat_alt)
  have su: "unat (o' + 1) = Suc (unat o')" by (rule word_succ_unat [OF lt])
  have le: "o' + 1 \<le> e" using lt by (rule inc_le)
  have n: "n = unat e - unat (o' + 1)" using Suc(2) su by simp
  show ?case using Suc(1) [OF n le] Suc(2) [symmetric] su
    by (simp add: read_loop_step [OF lt] raw_read1_snd n [symmetric] min_def max_def)
qed

lemma clamp_no_wrap:
  fixes cur sz len :: "64 word"
  assumes "cur \<le> sz"
  shows "unat (cur + min (sz - cur) len) = unat cur + unat (min (sz - cur) len)"
    and "cur \<le> cur + min (sz - cur) len"
    and "cur + min (sz - cur) len \<le> sz"
proof -
  have s: "unat (sz - cur) = unat sz - unat cur" using assms by (rule unat_sub)
  have c: "unat cur \<le> unat sz" using assms by (simp add: word_le_nat_alt)
  have m: "unat (min (sz - cur) len) \<le> unat sz - unat cur"
    using s by (simp add: min_def word_le_nat_alt)
  have "unat sz < 2 ^ LENGTH(64)" by (rule unsigned_less)
  with m c have "unat cur + unat (min (sz - cur) len) < 2 ^ LENGTH(64)" by simp
  then show u: "unat (cur + min (sz - cur) len) = unat cur + unat (min (sz - cur) len)"
    by (simp only: unat_add_lem)
  show "cur \<le> cur + min (sz - cur) len" using u by (simp add: word_le_nat_alt)
  show "cur + min (sz - cur) len \<le> sz" using u m c by (simp add: word_le_nat_alt)
qed

lemma RGSS_ioRead_result:
  assumes d: "io_deref st (io entry) = Some (a, r)"
  shows "RGSS_ioRead st entry len =
     (let toRead = min (size_e (data entry) - currentOffset entry) len;
          res = read_loop (currentOffset entry) (currentOffset entry + toRead) (currentMagic entry)
                  (raw_seek r (offset (data entry) + currentOffset entry))
      in Inr (toRead, fst res,
              entry\<lparr>currentMagic := fst (snd res), currentOffset := currentOffset entry + toRead\<rparr>,
              st[a := snd (snd res)]))"
  using d by (simp add: RGSS_ioRead_def Let_def split: prod.splits)

subsection \<open>Decrypting the payload\<close>

text \<open>
  Claim C5. A read on a handle whose cursor is inside its entry returns the clamped count,
  and the byte it stores for absolute offset \<open>o\<close> is the raw byte XOR
  \<open>(magic >> (8 * (o mod 4))) & 0xFF\<close>, where \<open>magic\<close> is the word the handle held when the
  read began, advanced once for every multiple of four passed between the cursor and \<open>o\<close>:
  one step of the recurrence per completed block of four bytes, never one per byte. The
  handle keeps the word advanced in the same way up to the new cursor.
\<close>

theorem RGSS_ioRead_mask_per_block:
  assumes d: "io_deref st (io entry) = Some (a, r)"
    and le: "currentOffset entry \<le> size_e (data entry)"
  shows "\<exists>buffer entry' st'.
     RGSS_ioRead st entry len =
       Inr (min (size_e (data entry) - currentOffset entry) len, buffer, entry', st') \<and>
     length buffer = unat (min (size_e (data entry) - currentOffset entry) len) \<and>
     (\<forall>k < length buffer.
        buffer ! k =
          map_option
            (\<lambda>b. b XOR (ucast (drop_bit (8 * ((unat (currentOffset entry) + k) mod 4))
                     (((\<lambda>m. m * 7 + 3) ^^
                        ((unat (currentOffset entry) + k) div 4 - unat (currentOffset entry) div 4))
                       (currentMagic entry)) AND 0xFF) :: byte))
            (if unat (offset (data entry) + currentOffset entry) + k < length (content r)
             then Some (content r ! (unat (offset (data entry) + currentOffset entry) + k))
             else None)) \<and>
     currentMagic entry' =
       ((\<lambda>m. m * 7 + 3) ^^
          ((unat (currentOffset entry) + length buffer) div 4 - unat (currentOffset entry) div 4))
         (currentMagic entry) \<and>
     currentOffset entry' = currentOffset entry + min (size_e (data entry) - currentOffset entry) len \<and>
     unat (currentOffset entry') = unat (currentOffset entry) + length buffer"
proof -
  let ?cur = "currentOffset entry"
  let ?n = "min (size_e (data entry) - ?cur) len"
  let ?r0 = "raw_seek r (offset (data entry) + ?cur)"
  let ?res = "read_loop ?cur (?cur + ?n) (currentMagic entry) ?r0"
  have u: "unat (?cur + ?n) = unat ?cur + unat ?n" and c: "?cur \<le> ?cur + ?n"
    using clamp_no_wrap [OF le] by simp_all
  have len: "length (fst ?res) = unat ?n"
    using read_loop_length [OF c] u by simp
  have nth: "k < length (fst ?res) \<Longrightarrow> fst ?res ! k =
      map_option
            (\<lambda>b. b XOR (ucast (drop_bit (8 * ((unat ?cur + k) mod 4))
                     (((\<lambda>m. m * 7 + 3) ^^ ((unat ?cur + k) div 4 - unat ?cur div 4))
                       (currentMagic entry)) AND 0xFF) :: byte))
            (if unat (offset (data entry) + ?cur) + k < length (content r)
             then Some (content r ! (unat (offset (data entry) + ?cur) + k))
             else None)" for k
  proof -
    assume "k < length (fst ?res)"
    then have "k < unat (?cur + ?n) - unat ?cur" using len u by simp
    from read_loop_nth [OF this] show ?thesis
      by (simp add: advance_times_funpow raw_seek_def)
  qed
  have mg: "fst (snd ?res) =
      ((\<lambda>m. m * 7 + 3) ^^ ((unat ?cur + length (fst ?res)) div 4 - unat ?cur div 4))
         (currentMagic entry)"
    using read_loop_magic [OF c] u len by (simp add: advance_times_funpow)
  define buffer where "buffer = fst ?res"
  define entry' where "entry' =
    entry\<lparr>currentMagic := fst (snd ?res), currentOffset := ?cur + ?n\<rparr>"
  define st' where "st' = st[a := snd (snd ?res)]"
  have 1: "RGSS_ioRead st entry len = Inr (?n, buffer, entry', st')"
    by (simp only: RGSS_ioRead_result [OF d] Let_def buffer_def entry'_def st'_def)
  have 2: "length buffer = unat ?n" using len by (simp only: buffer_def)
  have 3: "\<forall>k < length buffer. buffer ! k =
      map_option
            (\<lambda>b. b XOR (ucast (drop_bit (8 * ((unat ?cur + k) mod 4))
                     (((\<lambda>m. m * 7 + 3) ^^ ((unat ?cur + k) div 4 - unat ?cur div 4))
                       (currentMagic entry)) AND 0xFF) :: byte))
            (if unat (offset (data entry) + ?cur) + k < length (content r)
             then Some (content r ! (unat (offset (data entry) + ?cur) + k))
             else None)"
    unfolding buffer_def using nth by blast
  have 4: "currentMagic entry' =
      ((\<lambda>m. m * 7 + 3) ^^ ((unat ?cur + length buffer) div 4 - unat ?cur div 4))
         (currentMagic entry)"
    using mg by (simp add: entry'_def buffer_def)
  have 5: "currentOffset entry' = ?cur + ?n" by (simp add: entry'_def)
  have 6: "unat (currentOffset entry') = unat ?cur + length buffer"
    using u 2 5 by simp
  show ?thesis
    by (rule exI [of _ buffer], rule exI [of _ entry'], rule exI [of _ st'])
       (intro conjI 1 2 3 4 5 6)
qed

lemma word_gt_pred_iff:
  fixes s t :: "64 word"
  assumes "s \<noteq> 0"
  shows "(t > s - 1) = (s \<le> t)"
proof -
  have "1 \<le> s" using assms by (simp add: word_le_nat_alt unat_gt_0 Suc_le_eq)
  then have "unat (s - 1) = unat s - unat (1 :: 64 word)" by (rule unat_sub)
  moreover have "0 < unat s" using assms by (simp add: unat_gt_0)
  ultimately show ?thesis by (auto simp: word_less_nat_alt word_le_nat_alt)
qed

lemma word_zero_pred: "(0 :: 64 word) - 1 = 0xFFFFFFFFFFFFFFFF"
  by simp

lemma word_not_gt_max: "\<not> (t :: 64 word) > 0xFFFFFFFFFFFFFFFF"
proof -
  have "unat t < 2 ^ 64" using unsigned_less [of t] by simp
  then show ?thesis by (simp add: word_less_nat_alt)
qed

subsection \<open>Seeking\<close>

text \<open>
  Claim C4, as amended. A seek to the current offset succeeds and changes nothing, whatever
  the size. Any other seek on an entry that is not empty fails, changing nothing, when the
  target is at or past the size; otherwise it restarts from offset 0 and the start word when
  the target is before the cursor, advances the recurrence \<open>(target - currentOffset) / 4\<close>
  times, sets the cursor to the target and positions the byte source at
  \<open>offset + target\<close> (the call through an invalid \<^verbatim>\<open>io\<close> is undefined).
\<close>

theorem RGSS_ioSeek_cases:
  assumes "target = currentOffset entry \<or> size_e (data entry) \<noteq> 0"
  shows "RGSS_ioSeek st entry target =
    (if target = currentOffset entry then Inr (1, entry, st)
     else if size_e (data entry) \<le> target then Inr (0, entry, st)
     else case io_deref st (io entry) of
            None \<Rightarrow> Inl InvalidIo
          | Some (a, r) \<Rightarrow>
              Inr (1,
                   entry\<lparr>currentMagic :=
                           ((\<lambda>m. m * 7 + 3) ^^
                              unat ((target - (if target < currentOffset entry then 0
                                               else currentOffset entry)) div 4))
                             (if target < currentOffset entry then startMagic (data entry)
                              else currentMagic entry),
                         currentOffset := target\<rparr>,
                   st[a := r\<lparr>pos := unat (offset (data entry) + target)\<rparr>]))"
proof (cases "target = currentOffset entry")
  case True
  then show ?thesis by (simp add: RGSS_ioSeek_def)
next
  case False
  with assms have nz: "size_e (data entry) \<noteq> 0" by simp
  show ?thesis using False
    by (simp add: RGSS_ioSeek_def word_gt_pred_iff [OF nz] Let_def advance_times_funpow
          raw_seek_def split: option.splits)
qed

text \<open>
  Claim C9. A seek to the current offset returns success before any bounds check, so also
  when that offset equals the size. For an empty entry \<open>size - 1\<close> wraps to \<open>2^64 - 1\<close>,
  no target is above it, and no seek returns failure: with a live byte source every seek
  returns success and moves the cursor to the target.
\<close>

theorem RGSS_ioSeek_unchecked:
  "RGSS_ioSeek st entry (currentOffset entry) = Inr (1, entry, st) \<and>
   (size_e (data entry) = 0 \<longrightarrow>
      size_e (data entry) - 1 = 0xFFFFFFFFFFFFFFFF \<and>
      (\<forall>x. RGSS_ioSeek st entry target = Inr x \<longrightarrow> fst x = 1) \<and>
      (io_deref st (io entry) \<noteq> None \<longrightarrow>
         (\<exists>entry' st'. RGSS_ioSeek st entry target = Inr (1, entry', st') \<and>
            currentOffset entry' = target)))"
proof (intro conjI impI)
  show "RGSS_ioSeek st entry (currentOffset entry) = Inr (1, entry, st)"
    by (simp add: RGSS_ioSeek_def)
next
  assume z: "size_e (data entry) = 0"
  then show "size_e (data entry) - 1 = 0xFFFFFFFFFFFFFFFF" by simp
  show "\<forall>x. RGSS_ioSeek st entry target = Inr x \<longrightarrow> fst x = 1"
    using z word_not_gt_max [of target]
    by (auto simp: RGSS_ioSeek_def Let_def split: option.splits if_splits)
  assume "io_deref st (io entry) \<noteq> None"
  then show "\<exists>entry' st'. RGSS_ioSeek st entry target = Inr (1, entry', st') \<and>
      currentOffset entry' = target"
    using z word_not_gt_max [of target]
    by (auto simp: RGSS_ioSeek_def Let_def split: option.splits if_splits)
qed

subsection \<open>The example archive\<close>

text \<open>Opening the entries \<^verbatim>\<open>a/b\<close> and \<^verbatim>\<open>c\<close> of the parsed example gives the two example handles.\<close>

lemma ex_handle_opened:
  "(case RGSS_openArchive 4 ex_nameBuf [\<lparr>content = ex_bytes, pos = 0\<rparr>] (Ptr 0) False of
      Some (Inr (Some d, st)) \<Rightarrow> RGSS_openRead st d [0x61, 0x2F, 0x62]
    | _ \<Rightarrow> Inl InvalidIo) = Inr (Some ex_handle, ex_store 49 49)"
  by code_simp

lemma ex_empty_handle_opened:
  "(case RGSS_openArchive 4 ex_nameBuf [\<lparr>content = ex_bytes, pos = 0\<rparr>] (Ptr 0) False of
      Some (Inr (Some d, st)) \<Rightarrow> RGSS_openRead st d [0x63]
    | _ \<Rightarrow> Inl InvalidIo) = Inr (Some ex_empty_handle, ex_store 49 49)"
  by code_simp

lemmas ex_defs = ex_store_def ex_handle_def ex_empty_handle_def io_deref_def raw_seek_def
  raw_read1_def advanceMagic_def

text \<open>
  Claim C1 fails on the code. On the handle just opened, a seek to offset 3 and then a seek
  to offset 4 each advance the recurrence \<open>(target - currentOffset) / 4 = 0\<close> times: the
  cursor stands at 4 with the start word still in place, whereas the invariant asks for the
  start word advanced \<open>4 div 4 = 1\<close> time.
\<close>

theorem seek_unaligned_keeps_stale_magic:
  "RGSS_ioSeek (ex_store 49 49) ex_handle 3 =
     Inr (1, ex_handle\<lparr>currentOffset := 3\<rparr>, ex_store 49 35) \<and>
   RGSS_ioSeek (ex_store 49 35) (ex_handle\<lparr>currentOffset := 3\<rparr>) 4 =
     Inr (1, ex_handle\<lparr>currentOffset := 4\<rparr>, ex_store 49 36) \<and>
   currentMagic (ex_handle\<lparr>currentOffset := 4\<rparr>) = 0x9A58C296 \<and>
   ((\<lambda>m. m * 7 + 3) ^^ (unat (currentOffset (ex_handle\<lparr>currentOffset := 4\<rparr>)) div 4))
      (startMagic (data (ex_handle\<lparr>currentOffset := 4\<rparr>))) = 0x386D521D \<and>
   \<not> magic_inv (ex_handle\<lparr>currentOffset := 4\<rparr>)"
  by (simp add: RGSS_ioSeek_def ex_defs magic_inv_def)

text \<open>
  Claim C3 fails on the code. After reading three bytes, a seek to offset 4 followed by a
  read of one byte yields \<open>0xCE\<close>; a handle just opened that reads the first five bytes
  yields \<open>0x45\<close> at offset 4.
\<close>

theorem seek_then_read_differs_from_fresh_read:
  "RGSS_ioRead (ex_store 49 49) ex_handle 3 =
     Inr (3, [Some 0x41, Some 0x42, Some 0x43], ex_handle\<lparr>currentOffset := 3\<rparr>, ex_store 49 35) \<and>
   RGSS_ioSeek (ex_store 49 35) (ex_handle\<lparr>currentOffset := 3\<rparr>) 4 =
     Inr (1, ex_handle\<lparr>currentOffset := 4\<rparr>, ex_store 49 36) \<and>
   RGSS_ioRead (ex_store 49 36) (ex_handle\<lparr>currentOffset := 4\<rparr>) 1 =
     Inr (1, [Some 0xCE], ex_handle\<lparr>currentOffset := 5\<rparr>, ex_store 49 37) \<and>
   RGSS_ioRead (ex_store 49 49) ex_handle 5 =
     Inr (5, [Some 0x41, Some 0x42, Some 0x43, Some 0x44, Some 0x45],
          ex_handle\<lparr>currentMagic := 0x386D521D, currentOffset := 5\<rparr>, ex_store 49 37) \<and>
   drop 4 [Some 0x41, Some 0x42, Some 0x43, Some 0x44, Some (0x45 :: byte)] \<noteq> [Some 0xCE]"
  by (simp add: RGSS_ioSeek_def RGSS_ioRead_def ex_defs read_loop.simps ex_bytes_def)

text \<open>
  Claim C2 fails on the code. The duplicate of any handle has an \<^verbatim>\<open>io\<close> that was never
  assigned, so every read through it is undefined, and so is every seek that reaches the
  byte source; the handle it was copied from reads its first byte.
\<close>

theorem duplicate_has_no_byte_source:
  "io (RGSS_ioDuplicate entry) = Indeterminate \<and>
   RGSS_ioRead st (RGSS_ioDuplicate entry) len = Inl InvalidIo \<and>
   RGSS_ioRead (ex_store 49 49) ex_handle 1 =
     Inr (1, [Some 0x41], ex_handle\<lparr>currentOffset := 1\<rparr>, ex_store 49 33) \<and>
   RGSS_ioRead (ex_store 49 49) (RGSS_ioDuplicate ex_handle) 1 = Inl InvalidIo \<and>
   RGSS_ioSeek (ex_store 49 49) (RGSS_ioDuplicate ex_handle) 4 = Inl InvalidIo"
  by (simp add: RGSS_ioDuplicate_def RGSS_entryHandle_copy_def RGSS_ioRead_def RGSS_ioSeek_def
        ex_defs read_loop.simps ex_bytes_def)

text \<open>
  Claim C4 as stated fails: after the eight bytes of the entry are read the cursor equals
  the size, and a seek to 8, a target that is not below the size, returns success.
\<close>

theorem seek_to_end_succeeds:
  "RGSS_ioRead (ex_store 49 49) ex_handle 8 =
     Inr (8, [Some 0x41, Some 0x42, Some 0x43, Some 0x44, Some 0x45, Some 0x46, Some 0x47, Some 0x48],
          ex_handle\<lparr>currentMagic := 0x8AFD3ECE, currentOffset := 8\<rparr>, ex_store 49 40) \<and>
   size_e (data (ex_handle\<lparr>currentMagic := 0x8AFD3ECE, currentOffset := 8\<rparr>)) \<le> 8 \<and>
   RGSS_ioSeek (ex_store 49 40) (ex_handle\<lparr>currentMagic := 0x8AFD3ECE, currentOffset := 8\<rparr>) 8 =
     Inr (1, ex_handle\<lparr>currentMagic := 0x8AFD3ECE, currentOffset := 8\<rparr>, ex_store 49 40)"
  by (simp add: RGSS_ioSeek_def RGSS_ioRead_def ex_defs read_loop.simps ex_bytes_def)

theorem RGSS_ioSeek_cases_witness:
  "RGSS_ioSeek (ex_store 49 37) (ex_handle\<lparr>currentMagic := 0x386D521D, currentOffset := 5\<rparr>) 2 =
     Inr (1, ex_handle\<lparr>currentOffset := 2\<rparr>, ex_store 49 34)"
proof -
  have h: "2 = currentOffset (ex_handle\<lparr>currentMagic := 0x386D521D, currentOffset := 5\<rparr>) \<or>
      size_e (data (ex_handle\<lparr>currentMagic := 0x386D521D, currentOffset := 5\<rparr>)) \<noteq> 0"
    by (simp add: ex_handle_def)
  show ?thesis
    using RGSS_ioSeek_cases [OF h, of "ex_store 49 37"] by (simp add: ex_defs)
qed

theorem RGSS_ioSeek_unchecked_witness:
  "RGSS_ioSeek (ex_store 49 49) ex_empty_handle (currentOffset ex_empty_handle) =
     Inr (1, ex_empty_handle, ex_store 49 49) \<and>
   size_e (data ex_empty_handle) = 0 \<and>
   (\<exists>entry' st'. RGSS_ioSeek (ex_store 49 49) ex_empty_handle 5 = Inr (1, entry', st') \<and>
      currentOffset entry' = 5)"
  using RGSS_ioSeek_unchecked [of "ex_store 49 49" ex_empty_handle 5]
  by (simp add: ex_defs)

theorem RGSS_ioRead_mask_per_block_witness:
  "\<exists>buffer entry' st'.
     RGSS_ioRead (ex_store 49 49) ex_handle 5 = Inr (5, buffer, entry', st') \<and>
     length buffer = 5 \<and> buffer ! 4 = Some 0x45 \<and>
     currentMagic entry' = 0x386D521D \<and> currentOffset entry' = 5"
proof -
  have d: "io_deref (ex_store 49 49) (io ex_handle) = Some (1, \<lparr>content = ex_bytes, pos = 49\<rparr>)"
    by (simp add: ex_defs)
  have le: "currentOffset ex_handle \<le> size_e (data ex_handle)"
    by (simp add: ex_handle_def)
  from RGSS_ioRead_mask_per_block [OF d le, of 5]
  obtain buffer entry' st' where
    1: "RGSS_ioRead (ex_store 49 49) ex_handle 5 =
          Inr (min (size_e (data ex_handle) - currentOffset ex_handle) 5, buffer, entry', st')"
    and 2: "length buffer = unat (min (size_e (data ex_handle) - currentOffset ex_handle) 5)"
    and 3: "\<forall>k < length buffer.
        buffer ! k =
          map_option
            (\<lambda>b. b XOR (ucast (drop_bit (8 * ((unat (currentOffset ex_handle) + k) mod 4))
                     (((\<lambda>m. m * 7 + 3) ^^
                        ((unat (currentOffset ex_handle) + k) div 4 - unat (currentOffset ex_handle) div 4))
                       (currentMagic ex_handle)) AND 0xFF) :: byte))
            (if unat (offset (data ex_handle) + currentOffset ex_handle) + k
                  < length (content \<lparr>content = ex_bytes, pos = 49\<rparr>)
             then Some (content \<lparr>content = ex_bytes, pos = 49\<rparr> !
                          (unat (offset (data ex_handle) + currentOffset ex_handle) + k))
             else None)"
    and 4: "currentMagic entry' =
       ((\<lambda>m. m * 7 + 3) ^^
          ((unat (currentOffset ex_handle) + length buffer) div 4 - unat (currentOffset ex_handle) div 4))
         (currentMagic ex_handle)"
    and 5: "currentOffset entry' =
        currentOffset ex_handle + min (size_e (data ex_handle) - currentOffset ex_handle) 5"
    by blast
  have l: "length buffer = 5" using 2 by (simp add: ex_handle_def)
  have "buffer ! 4 = Some 0x45" using 3 [rule_format, of 4] l
    by (simp add: ex_handle_def ex_bytes_def)
  moreover have "currentMagic entry' = 0x386D521D" using 4 l
    by (simp add: ex_handle_def)
  moreover have "currentOffset entry' = 5" using 5 by (simp add: ex_handle_def)
  moreover have "RGSS_ioRead (ex_store 49 49) ex_handle 5 = Inr (5, buffer, entry', st')"
    using 1 by (simp add: ex_handle_def)
  ultimately show ?thesis using l by blast
qed

subsection \<open>Completing a file name\<close>

lemma ext_loop_find:
  "ext_loop ex filename exts = List.find ex (map (\<lambda>ext. take 1023 (filename @ ''.'' @ ext)) exts)"
  by (induction exts) (simp_all add: snprintf_buff_def Let_def)

lemma fileExtensions_short: "ext \<in> set (fileExtensions type) \<Longrightarrow> length ext \<le> 3"
  by (cases type) (auto simp: imgExt_def audExt_def fonExt_def)

text \<open>
  What \<^verbatim>\<open>completeFileName\<close>, \<^verbatim>\<open>openReadInt\<close> and \<^verbatim>\<open>exists\<close> compute. A name that exists is
  returned as it is. Otherwise, for a known category, the candidates are what \<^verbatim>\<open>snprintf\<close>
  left in the buffer, the first 1023 characters of \<open>name.ext\<close>, for the extensions of the
  category in their order, and the first candidate that exists is returned. For a name of at
  most 1019 characters every candidate is the whole of \<open>name.ext\<close>, and the resolution is the
  one the specification describes. When nothing is found \<^verbatim>\<open>openReadInt\<close> throws
  \<^verbatim>\<open>NoFileError\<close> with the name as it was asked for, when something is found it opens that,
  and \<^verbatim>\<open>exists\<close> is true exactly when something is found.
\<close>

theorem completeFileName_resolution:
  "completeFileName ex filename type =
     (if ex filename then Some filename
      else if type = Undefined then None
      else List.find ex (map (\<lambda>ext. take 1023 (filename @ ''.'' @ ext)) (fileExtensions type))) \<and>
   (length filename \<le> 1019 \<longrightarrow>
      map (\<lambda>ext. take 1023 (filename @ ''.'' @ ext)) (fileExtensions type) =
      map (\<lambda>ext. filename @ ''.'' @ ext) (fileExtensions type)) \<and>
   (completeFileName ex filename type = None \<longrightarrow>
      openReadInt ex openRead lastError filename type =
        Inl (Exception NoFileError ''No such file or directory - %s'' [filename])) \<and>
   (\<forall>found. completeFileName ex filename type = Some found \<longrightarrow>
      openReadInt ex openRead lastError filename type =
        (case openRead found of
           None \<Rightarrow> Inl (Exception PHYSFSError ''PhysFS: %s'' [lastError])
         | Some handle \<Rightarrow> Inr handle)) \<and>
   FileSystem_exists ex filename type = (\<exists>found. completeFileName ex filename type = Some found)"
proof (intro conjI impI allI)
  show "completeFileName ex filename type =
     (if ex filename then Some filename
      else if type = Undefined then None
      else List.find ex (map (\<lambda>ext. take 1023 (filename @ ''.'' @ ext)) (fileExtensions type)))"
    by (simp add: completeFileName_def ext_loop_find)
next
  assume "length filename \<le> 1019"
  then show "map (\<lambda>ext. take 1023 (filename @ ''.'' @ ext)) (fileExtensions type) =
      map (\<lambda>ext. filename @ ''.'' @ ext) (fileExtensions type)"
    using fileExtensions_short [of _ type] by (intro map_cong refl) fastforce
next
  assume "completeFileName ex filename type = None"
  then show "openReadInt ex openRead lastError filename type =
        Inl (Exception NoFileError ''No such file or directory - %s'' [filename])"
    by (simp add: openReadInt_def)
next
  fix found
  assume "completeFileName ex filename type = Some found"
  then show "openReadInt ex openRead lastError filename type =
        (case openRead found of
           None \<Rightarrow> Inl (Exception PHYSFSError ''PhysFS: %s'' [lastError])
         | Some handle \<Rightarrow> Inr handle)"
    by (simp add: openReadInt_def)
next
  show "FileSystem_exists ex filename type = (\<exists>found. completeFileName ex filename type = Some found)"
    by (simp add: FileSystem_exists_def)
qed

theorem completeFileName_resolution_witness:
  "completeFileName (\<lambda>s. s = ''title.png'') ''title'' Image_ft = Some ''title.png'' \<and>
   FileSystem_exists (\<lambda>s. s = ''title.png'') ''title'' Image_ft \<and>
   openReadInt (\<lambda>s. s = ''title.png'') (\<lambda>s. Some s) ''e'' ''title'' Image_ft = Inr ''title.png'' \<and>
   openReadInt (\<lambda>s. False) (\<lambda>s. Some s) ''e'' ''title'' Image_ft =
     Inl (Exception NoFileError ''No such file or directory - %s'' [''title''])"
proof -
  have a: "completeFileName (\<lambda>s. s = ''title.png'') ''title'' Image_ft = Some ''title.png''"
    using completeFileName_resolution
      [of "\<lambda>s. s = ''title.png''" "''title''" Image_ft "\<lambda>s. Some s" "''e''"]
    by (simp add: imgExt_def)
  have n: "completeFileName (\<lambda>s. False) ''title'' Image_ft = None"
    using completeFileName_resolution [of "\<lambda>s. False" "''title''" Image_ft "\<lambda>s. Some s" "''e''"]
    by (simp add: imgExt_def)
  have b: "FileSystem_exists (\<lambda>s. s = ''title.png'') ''title'' Image_ft"
    using completeFileName_resolution
      [of "\<lambda>s. s = ''title.png''" "''title''" Image_ft "\<lambda>s. Some s" "''e''"] a
    by simp
  have c: "openReadInt (\<lambda>s. s = ''title.png'') (\<lambda>s. Some s) ''e'' ''title'' Image_ft = Inr ''title.png''"
    using completeFileName_resolution
      [of "\<lambda>s. s = ''title.png''" "''title''" Image_ft "\<lambda>s. Some s" "''e''"] a
    by simp
  have d: "openReadInt (\<lambda>s. False) (\<lambda>s. Some s) ''e'' ''title'' Image_ft =
     Inl (Exception NoFileError ''No such file or directory - %s'' [''title''])"
    using completeFileName_resolution [of "\<lambda>s. False" "''title''" Image_ft "\<lambda>s. Some s" "''e''"] n
    by simp
  from a b c d show ?thesis by simp
qed

text \<open>
  Claim C8 fails on the code for names above 1019 characters, where the candidate probed is
  a truncation of \<open>name.ext\<close>. For the name of 1022 characters neither the name nor the
  name with \<^verbatim>\<open>.jpg\<close> or \<^verbatim>\<open>.png\<close> exists, yet the name is resolved, to the name followed by a
  dot. For the name of 1020 characters the name with \<^verbatim>\<open>.png\<close> exists, yet nothing is found:
  \<^verbatim>\<open>exists\<close> is false and \<^verbatim>\<open>openReadInt\<close> throws \<^verbatim>\<open>NoFileError\<close>.
\<close>

theorem long_name_probes_truncation:
  "\<not> ex_long_exists ex_long_name \<and>
   \<not> ex_long_exists (ex_long_name @ ''.'' @ ''jpg'') \<and>
   \<not> ex_long_exists (ex_long_name @ ''.'' @ ''png'') \<and>
   completeFileName ex_long_exists ex_long_name Image_ft = Some (ex_long_name @ ''.'') \<and>
   FileSystem_exists ex_long_exists ex_long_name Image_ft \<and>
   \<not> ex_png_exists ex_png_name \<and>
   ex_png_exists (ex_png_name @ ''.'' @ ''png'') \<and>
   completeFileName ex_png_exists ex_png_name Image_ft = None \<and>
   \<not> FileSystem_exists ex_png_exists ex_png_name Image_ft \<and>
   openReadInt ex_png_exists (\<lambda>s. Some s) [] ex_png_name Image_ft =
     Inl (Exception NoFileError ''No such file or directory - %s'' [ex_png_name])"
proof -
  have l: "length ex_long_name = 1022"
    by (simp add: ex_long_name_def length_concat sum_list_replicate)
  have t: "snprintf_buff ex_long_name ext = ex_long_name @ ''.''" for ext
    by (simp add: snprintf_buff_def l)
  have l2: "length ex_png_name = 1020"
    by (simp add: ex_png_name_def length_concat sum_list_replicate)
  have j: "snprintf_buff ex_png_name ''jpg'' = ex_png_name @ ''.jp''"
    by (simp add: snprintf_buff_def l2)
  have g: "snprintf_buff ex_png_name ''png'' = ex_png_name @ ''.pn''"
    by (simp add: snprintf_buff_def l2)
  have c: "completeFileName ex_png_exists ex_png_name Image_ft = None"
    by (simp add: ex_png_exists_def completeFileName_def imgExt_def j g)
  have long: "\<not> ex_long_exists ex_long_name \<and>
      \<not> ex_long_exists (ex_long_name @ ''.'' @ ''jpg'') \<and>
      \<not> ex_long_exists (ex_long_name @ ''.'' @ ''png'') \<and>
      completeFileName ex_long_exists ex_long_name Image_ft = Some (ex_long_name @ ''.'') \<and>
      FileSystem_exists ex_long_exists ex_long_name Image_ft"
    by (simp add: ex_long_exists_def completeFileName_def FileSystem_exists_def imgExt_def t)
  have png: "\<not> ex_png_exists ex_png_name \<and>
      ex_png_exists (ex_png_name @ ''.'' @ ''png'') \<and>
      \<not> FileSystem_exists ex_png_exists ex_png_name Image_ft \<and>
      openReadInt ex_png_exists (\<lambda>s. Some s) [] ex_png_name Image_ft =
        Inl (Exception NoFileError ''No such file or directory - %s'' [ex_png_name])"
    by (simp add: ex_png_exists_def FileSystem_exists_def openReadInt_def c)
  from long png c show ?thesis by blast
qed

subsection \<open>The filename loop and the name buffer\<close>

lemma name_loop_step:
  "name_loop (Suc k) i r magic nameBuf =
     (if length nameBuf \<le> i then Inl BufferOverflow
      else name_loop k (Suc i) (snd (raw_read1 r)) (magic * 7 + 3)
             (nameBuf[i := name_cell magic (fst (raw_read1 r))]))"
  by (simp add: Let_def advanceMagic_def split: prod.splits)

declare name_loop.simps(2) [simp del]

lemma name_loop_overflow:
  "0 < k \<Longrightarrow> length nameBuf < i + k \<Longrightarrow> name_loop k i r magic nameBuf = Inl BufferOverflow"
proof (induction k arbitrary: i r magic nameBuf)
  case 0
  then show ?case by simp
next
  case (Suc k)
  show ?case
  proof (cases "length nameBuf \<le> i")
    case True
    then show ?thesis by (simp add: name_loop_step)
  next
    case False
    with Suc.prems have "0 < k" by simp
    with Suc.prems Suc.IH [of _ "Suc i"] False show ?thesis by (simp add: name_loop_step)
  qed
qed

lemma name_loop_ok:
  "i + k \<le> length nameBuf \<Longrightarrow> \<exists>r' buf'.
     name_loop k i r magic nameBuf = Inr (r', advance_times k magic, buf') \<and>
     length buf' = length nameBuf"
proof (induction k arbitrary: i r magic nameBuf)
  case 0
  then show ?case by simp
next
  case (Suc k)
  then have "Suc i + k \<le> length (nameBuf[i := name_cell magic (fst (raw_read1 r))])"
    by simp
  from Suc.IH [OF this, of "snd (raw_read1 r)" "magic * 7 + 3"] Suc.prems show ?case
    by (simp add: name_loop_step advanceMagic_def)
qed

lemma name_loop_raw:
  "name_loop k i r magic nameBuf = Inr (r', m', buf') \<Longrightarrow>
     r' = r\<lparr>pos := max (pos r) (min (pos r + k) (length (content r)))\<rparr>"
proof (induction k arbitrary: i r magic nameBuf)
  case 0
  then show ?case by simp
next
  case (Suc k)
  from Suc.prems have "name_loop k (Suc i) (snd (raw_read1 r)) (magic * 7 + 3)
             (nameBuf[i := name_cell magic (fst (raw_read1 r))]) = Inr (r', m', buf')"
    by (simp add: name_loop_step split: if_splits)
  from Suc.IH [OF this] show ?case
    by (simp add: raw_read1_snd min_def max_def)
qed

lemma name_loop_low:
  "name_loop k i r magic nameBuf = Inr (r', m', buf') \<Longrightarrow> j < i \<Longrightarrow> buf' ! j = nameBuf ! j"
proof (induction k arbitrary: i r magic nameBuf)
  case 0
  then show ?case by simp
next
  case (Suc k)
  from Suc.prems(1) have "name_loop k (Suc i) (snd (raw_read1 r)) (magic * 7 + 3)
             (nameBuf[i := name_cell magic (fst (raw_read1 r))]) = Inr (r', m', buf')"
    by (simp add: name_loop_step split: if_splits)
  from Suc.IH [OF this] Suc.prems(2) show ?case by simp
qed

lemma name_loop_nth:
  "name_loop k i r magic nameBuf = Inr (r', m', buf') \<Longrightarrow> j < k \<Longrightarrow>
     buf' ! (i + j) =
       name_cell (advance_times j magic)
         (if pos r + j < length (content r) then Some (content r ! (pos r + j)) else None)"
proof (induction k arbitrary: i j r magic nameBuf)
  case 0
  then show ?case by simp
next
  case (Suc k)
  let ?x = "name_cell magic (fst (raw_read1 r))"
  from Suc.prems(1) have lt: "i < length nameBuf" and
    rec: "name_loop k (Suc i) (snd (raw_read1 r)) (magic * 7 + 3) (nameBuf[i := ?x]) =
            Inr (r', m', buf')"
    by (simp_all add: name_loop_step split: if_splits)
  show ?case
  proof (cases j)
    case 0
    from name_loop_low [OF rec, of i] lt have "buf' ! i = ?x" by simp
    with 0 show ?thesis by (simp add: raw_read1_fst)
  next
    case (Suc j')
    with Suc.prems(2) have "j' < k" by simp
    from Suc.IH [OF rec this] Suc show ?thesis
      by (simp add: raw_read1_snd advanceMagic_def)
  qed
qed

lemma c_str_terminated:
  "n < length buf \<Longrightarrow> buf ! n = Some 0 \<Longrightarrow> (\<forall>j<n. buf ! j \<noteq> None) \<Longrightarrow>
     c_str buf = Some (takeWhile (\<lambda>c. c \<noteq> 0) (map (\<lambda>j. the (buf ! j)) [0..<n]))"
proof (induction buf arbitrary: n)
  case Nil
  then show ?case by simp
next
  case (Cons x xs)
  show ?case
  proof (cases n)
    case 0
    with Cons.prems show ?thesis by simp
  next
    case (Suc n')
    from Cons.prems(3) Suc obtain c where x: "x = Some c" by (cases x) auto
    have ih: "c_str xs = Some (takeWhile (\<lambda>c. c \<noteq> 0) (map (\<lambda>j. the (xs ! j)) [0..<n']))"
    proof (rule Cons.IH)
      show "n' < length xs" using Cons.prems(1) Suc by simp
      show "xs ! n' = Some 0" using Cons.prems(2) Suc by simp
      show "\<forall>j<n'. xs ! j \<noteq> None"
      proof (intro allI impI)
        fix j assume "j < n'"
        then have "Suc j < n" using Suc by simp
        with Cons.prems(3) have "(x # xs) ! Suc j \<noteq> None" by blast
        then show "xs ! j \<noteq> None" by simp
      qed
    qed
    have m: "map (\<lambda>j. the ((x # xs) ! j)) [0..<Suc n'] = c # map (\<lambda>j. the (xs ! j)) [0..<n']"
      using x by (simp add: map_upt_Suc del: upt_Suc)
    show ?thesis unfolding Suc m using x ih by simp
  qed
qed

lemma dir_loop_length:
  "dir_loop j buf dirs = Inr (buf', dirs') \<Longrightarrow> length buf' = length buf"
proof (induction j arbitrary: buf dirs)
  case 0
  then show ?case by simp
next
  case (Suc j)
  show ?case
  proof (cases "buf ! Suc j")
    case None
    with Suc.prems show ?thesis by (simp split: if_splits)
  next
    case (Some c)
    show ?thesis
    proof (cases "c = 0x2F")
      case True
      with Suc.prems Some obtain k where
        "dir_loop j (buf[Suc j := Some 0]) (if dirs k = None then dirs(k \<mapsto> True) else dirs) =
           Inr (buf', dirs')"
        by (simp add: Let_def split: if_splits option.splits)
      from Suc.IH [OF this] show ?thesis by simp
    next
      case False
      with Suc.prems Some have "dir_loop j buf dirs = Inr (buf', dirs')"
        by (simp split: if_splits)
      from Suc.IH [OF this] show ?thesis .
    qed
  qed
qed


lemma read_entry_overflow:
  "(read_entry w r magic nameBuf = Inl BufferOverflow) = (length nameBuf \<le> unat (w XOR magic))"
proof (cases "length nameBuf \<le> unat (w XOR magic)")
  case le: True
  show ?thesis
  proof (cases "length nameBuf < unat (w XOR magic)")
    case True
    then have "0 < unat (w XOR magic)" by simp
    from name_loop_overflow [OF this, of nameBuf 0] True le show ?thesis
      by (simp add: read_entry_def advanceMagic_def)
  next
    case False
    with le have "0 + unat (w XOR magic) \<le> length nameBuf" by simp
    from name_loop_ok [OF this, of r "magic * 7 + 3"] le show ?thesis
      by (auto simp: read_entry_def advanceMagic_def)
  qed
next
  case False
  then have "0 + unat (w XOR magic) \<le> length nameBuf" by simp
  from name_loop_ok [OF this, of r "magic * 7 + 3"] False show ?thesis
    by (auto simp: read_entry_def advanceMagic_def Let_def split: prod.splits option.splits)
qed

lemma read_entry_Inr:
  assumes "read_entry w r magic nameBuf = Inr (key, entry, nameLen, r2, magic3, nameBuf2)"
  shows "nameLen = w XOR magic" and "length nameBuf2 = length nameBuf"
    and "unat nameLen < length nameBuf"
proof -
  have nov: "\<not> length nameBuf \<le> unat (w XOR magic)"
    using read_entry_overflow [of w r magic nameBuf] assms by auto
  then show "nameLen = w XOR magic" using assms
    by (auto simp: read_entry_def advanceMagic_def Let_def
          split: prod.splits option.splits sum.splits if_splits)
  then show "unat nameLen < length nameBuf" using nov by simp
  from nov have "0 + unat (w XOR magic) \<le> length nameBuf" by simp
  from name_loop_ok [OF this, of r "magic * 7 + 3"] assms
  show "length nameBuf2 = length nameBuf"
    by (auto simp: read_entry_def advanceMagic_def Let_def
          split: prod.splits option.splits sum.splits if_splits)
qed





lemma name_cell_Some:
  "name_cell old (Some c) =
     Some (let x = c XOR (ucast (old AND 0xFF) :: byte) in if x = 0x5C then 0x2F else x)"
  by (simp add: name_cell_def Let_def)

text \<open>
  Claim C6. In one iteration of the parsing loop, started with keystream word \<open>magic\<close>: the
  length field is decrypted by XOR with \<open>magic\<close> itself, the full word of the first
  \<^verbatim>\<open>advance\<close>; filename byte \<open>i\<close> by XOR with the low 8 bits of the word after \<open>i + 1\<close> steps;
  the size field by XOR with the full word after \<open>nameLen + 1\<close> steps; and the word left for
  the payload is the one after \<open>nameLen + 2\<close> steps. Each filename byte costs one step.
\<close>

theorem read_entry_keystream:
  assumes fit: "unat (w XOR magic) < length nameBuf"
    and avail: "pos r + unat (w XOR magic) \<le> length (content r)"
    and sz: "readUint32 (r\<lparr>pos := pos r + unat (w XOR magic)\<rparr>) = (Some w2, r2)"
  shows "\<exists>key nameBuf'.
     read_entry w r magic nameBuf =
       Inr (key,
            \<lparr>offset = raw_tell r2,
             size_e = ucast (w2 XOR ((\<lambda>m. m * 7 + 3) ^^ (unat (w XOR magic) + 1)) magic),
             startMagic = ((\<lambda>m. m * 7 + 3) ^^ (unat (w XOR magic) + 2)) magic\<rparr>,
            w XOR magic, r2, ((\<lambda>m. m * 7 + 3) ^^ (unat (w XOR magic) + 2)) magic, nameBuf') \<and>
     (\<forall>i < unat (w XOR magic).
        nameBuf' ! i =
          Some (let x = content r ! (pos r + i) XOR
                        (ucast (((\<lambda>m. m * 7 + 3) ^^ (i + 1)) magic AND 0xFF) :: byte)
                in if x = 0x5C then 0x2F else x)) \<and>
     nameBuf' ! unat (w XOR magic) = Some 0 \<and>
     key = takeWhile (\<lambda>c. c \<noteq> 0) (map (\<lambda>i. the (nameBuf' ! i)) [0..<unat (w XOR magic)])"
proof -
  let ?n = "unat (w XOR magic)"
  let ?f = "\<lambda>m :: 32 word. m * 7 + 3"
  have "0 + ?n \<le> length nameBuf" using fit by simp
  from name_loop_ok [OF this, of r "magic * 7 + 3"] obtain r1 buf1 where
    nl: "name_loop ?n 0 r (magic * 7 + 3) nameBuf = Inr (r1, advance_times ?n (magic * 7 + 3), buf1)"
    and len: "length buf1 = length nameBuf" by blast
  have adv: "advance_times k (magic * 7 + 3) = (?f ^^ (k + 1)) magic" for k
  proof -
    have "advance_times k (magic * 7 + 3) = advance_times (Suc k) magic"
      by (simp add: advanceMagic_def)
    then show ?thesis by (simp only: advance_times_funpow Suc_eq_plus1)
  qed
  have r1: "r1 = r\<lparr>pos := pos r + ?n\<rparr>"
    using name_loop_raw [OF nl] avail by (simp add: min_def max_def)
  have cells: "buf1 ! i =
      Some (let x = content r ! (pos r + i) XOR (ucast ((?f ^^ (i + 1)) magic AND 0xFF) :: byte)
            in if x = 0x5C then 0x2F else x)" if "i < ?n" for i
  proof -
    have "pos r + i < length (content r)" using that avail by simp
    with name_loop_nth [OF nl that] show ?thesis
      by (simp add: name_cell_Some adv)
  qed
  define buf2 where "buf2 = buf1[?n := Some 0]"
  have c2: "buf2 ! i = buf1 ! i" if "i < ?n" for i using that by (simp add: buf2_def)
  have t2: "buf2 ! ?n = Some 0" using fit len by (simp add: buf2_def)
  have l2: "?n < length buf2" using fit len by (simp add: buf2_def)
  have "\<forall>j < ?n. buf2 ! j \<noteq> None" using c2 cells by simp
  from c_str_terminated [OF l2 t2 this]
  have key: "c_str buf2 =
      Some (takeWhile (\<lambda>c. c \<noteq> 0) (map (\<lambda>j. the (buf2 ! j)) [0..<?n]))" .
  have m3: "advance_times ?n (magic * 7 + 3) * 7 + 3 = (?f ^^ (?n + 2)) magic"
    by (simp add: adv)
  have re: "read_entry w r magic nameBuf =
       Inr (takeWhile (\<lambda>c. c \<noteq> 0) (map (\<lambda>j. the (buf2 ! j)) [0..<?n]),
            \<lparr>offset = raw_tell r2,
             size_e = ucast (w2 XOR (?f ^^ (?n + 1)) magic),
             startMagic = (?f ^^ (?n + 2)) magic\<rparr>,
            w XOR magic, r2, (?f ^^ (?n + 2)) magic, buf2)"
    using fit len sz key m3
    by (simp add: read_entry_def advanceMagic_def nl r1 buf2_def [symmetric] adv Let_def
          del: funpow.simps)
  have cells2: "\<forall>i < ?n. buf2 ! i =
      Some (let x = content r ! (pos r + i) XOR (ucast ((?f ^^ (i + 1)) magic AND 0xFF) :: byte)
            in if x = 0x5C then 0x2F else x)"
    using c2 cells by simp
  show ?thesis
    by (rule exI [of _ "takeWhile (\<lambda>c. c \<noteq> 0) (map (\<lambda>j. the (buf2 ! j)) [0..<?n])"],
        rule exI [of _ buf2]) (intro conjI re cells2 t2 refl)
qed

subsection \<open>The entry table and the index\<close>

lemma ex_table_walk:
  "entry_table 4 \<lparr>content = ex_bytes, pos = 8\<rparr> RGSS_MAGIC ex_nameBuf
     \<lparr>archiveIo = Ptr 0, entryHash = Map.empty, dirHash = Map.empty\<rparr> = Some (Inr ex_table)"
  by code_simp

lemma parse_entry_entryHash:
  assumes "read_entry w r magic nameBuf = Inr (key, entry, rest)"
    and "parse_entry w r magic nameBuf d = Inr (r2, magic2, nameBuf2, d2)"
  shows "entryHash d2 = (entryHash d)(key \<mapsto> entry)" and "archiveIo d2 = archiveIo d"
  using assms by (auto simp: parse_entry_def Let_def split: sum.splits prod.splits)

lemma parse_loop_table:
  "entry_table fuel r magic nameBuf d = Some (Inr es) \<Longrightarrow>
     \<exists>r' d'. parse_loop fuel r magic nameBuf d = Some (Inr (r', d')) \<and>
       entryHash d' = entryHash d ++ map_of (rev es) \<and> archiveIo d' = archiveIo d"
proof (induction fuel arbitrary: r magic nameBuf d es)
  case 0
  then show ?case by simp
next
  case (Suc fuel)
  obtain w0 r1 where ru: "readUint32 r = (w0, r1)" by (cases "readUint32 r")
  show ?case
  proof (cases w0)
    case None
    with Suc.prems ru show ?thesis by simp
  next
    case (Some w)
    from Suc.prems ru Some obtain key entry rest where
      re: "read_entry w r1 magic nameBuf = Inr (key, entry, rest)"
      by (auto split: sum.splits)
    from Suc.prems ru Some re obtain r2 magic2 nameBuf2 d2 where
      pe: "parse_entry w r1 magic nameBuf d = Inr (r2, magic2, nameBuf2, d2)"
      by (auto split: sum.splits)
    from Suc.prems ru Some re pe obtain es' where
      et: "entry_table fuel r2 magic2 nameBuf2 d2 = Some (Inr es')" and es: "es = (key, entry) # es'"
      by (auto split: sum.splits option.splits)
    from Suc.IH [OF et] obtain r' d' where
      pl: "parse_loop fuel r2 magic2 nameBuf2 d2 = Some (Inr (r', d'))"
      and eh: "entryHash d' = entryHash d2 ++ map_of (rev es')"
      and ai: "archiveIo d' = archiveIo d2" by blast
    have "entryHash d2 ++ map_of (rev es') = entryHash d ++ map_of (rev es)"
      using parse_entry_entryHash(1) [OF re pe] by (simp add: es map_add_upd_left)
    moreover have "parse_loop (Suc fuel) r magic nameBuf d = Some (Inr (r', d'))"
      using ru Some pe pl by simp
    ultimately show ?thesis using eh ai parse_entry_entryHash(2) [OF re pe] by simp
  qed
qed

lemma map_of_rev_last:
  assumes j: "j < length es"
    and last: "\<forall>k. j < k \<and> k < length es \<longrightarrow> fst (es ! k) \<noteq> fst (es ! j)"
  shows "map_of (rev es) (fst (es ! j)) = Some (snd (es ! j))"
proof -
  have split: "es = take j es @ es ! j # drop (Suc j) es" using j by (rule id_take_nth_drop)
  have "fst (es ! j) \<notin> fst ` set (drop (Suc j) es)"
  proof
    assume "fst (es ! j) \<in> fst ` set (drop (Suc j) es)"
    then obtain x where x: "x \<in> set (drop (Suc j) es)" and fx: "fst x = fst (es ! j)" by auto
    from x obtain k where k: "k < length (drop (Suc j) es)" and xk: "drop (Suc j) es ! k = x"
      by (auto simp: in_set_conv_nth)
    from k have kk: "Suc j + k < length es" by simp
    then have "es ! (Suc j + k) = x" using xk by simp
    with last kk fx show False by (metis less_add_Suc1 add_Suc)
  qed
  then have none: "map_of (rev (drop (Suc j) es)) (fst (es ! j)) = None"
    by (simp add: map_of_eq_None_iff)
  have "rev es = rev (drop (Suc j) es) @ es ! j # rev (take j es)"
    by (subst split) simp
  then have "map_of (rev es) (fst (es ! j)) =
      map_of (rev (drop (Suc j) es) @ (fst (es ! j), snd (es ! j)) # rev (take j es)) (fst (es ! j))"
    by simp
  also have "\<dots> = Some (snd (es ! j))"
    using none by (simp add: map_add_def del: rev_rev_ident)
  finally show ?thesis .
qed

text \<open>
  Claim C10. When the entry table holds two entries \<open>i < j\<close> with the same key (the
  slash-converted, NUL-terminated path) and none after \<open>j\<close> has that key, the archive is
  opened, its index maps the key to the metadata of entry \<open>j\<close>, \<^verbatim>\<open>RGSS_openRead\<close> builds
  its handle from that metadata and \<^verbatim>\<open>RGSS_stat\<close> reports its size.
\<close>

theorem later_entry_wins:
  assumes io: "io_deref st p = Some (a, r)"
    and h1: "readUint32 r = (Some RGSS_HEADER_1, r1)"
    and h2: "readUint32 r1 = (Some RGSS_HEADER_2, r2)"
    and tab: "entry_table fuel r2 RGSS_MAGIC nameBuf
                \<lparr>archiveIo = p, entryHash = Map.empty, dirHash = Map.empty\<rparr> = Some (Inr es)"
    and ij: "i < j" and j: "j < length es"
    and same: "fst (es ! i) = fst (es ! j)"
    and last: "\<forall>k. j < k \<and> k < length es \<longrightarrow> fst (es ! k) \<noteq> fst (es ! j)"
  shows "\<exists>d st'.
     RGSS_openArchive fuel nameBuf st p False = Some (Inr (Some d, st')) \<and>
     entryHash d (fst (es ! i)) = Some (snd (es ! j)) \<and>
     RGSS_openRead st' d (fst (es ! i)) =
       Inr (Some ((RGSS_entryHandle_new (snd (es ! j)))\<lparr>io := Ptr (length st')\<rparr>),
            st' @ [st' ! a]) \<and>
     RGSS_stat d (fst (es ! i)) =
       (1, Some \<lparr>filesize = size_e (snd (es ! j)), modtime = 0, createtime = 0, accesstime = 0,
                 filetype = PHYSFS_FILETYPE_REGULAR, readonly = 1\<rparr>)"
proof -
  from parse_loop_table [OF tab] obtain r3 d where
    pl: "parse_loop fuel r2 RGSS_MAGIC nameBuf
           \<lparr>archiveIo = p, entryHash = Map.empty, dirHash = Map.empty\<rparr> = Some (Inr (r3, d))"
    and eh: "entryHash d = map_of (rev es)" and ai: "archiveIo d = p"
    by auto
  from io have p: "p = Ptr a" and a: "a < length st"
    by (auto simp: io_deref_def split: io_ptr.splits if_splits)
  define st' where "st' = st[a := r3]"
  have oa: "RGSS_openArchive fuel nameBuf st p False = Some (Inr (Some d, st'))"
    using io h1 h2 pl by (simp add: RGSS_openArchive_def st'_def)
  have e: "entryHash d (fst (es ! i)) = Some (snd (es ! j))"
    using map_of_rev_last [OF j last] eh same by simp
  have dr: "io_deref st' (archiveIo d) = Some (a, st' ! a)"
    using a ai p by (simp add: io_deref_def st'_def)
  have orr: "RGSS_openRead st' d (fst (es ! i)) =
       Inr (Some ((RGSS_entryHandle_new (snd (es ! j)))\<lparr>io := Ptr (length st')\<rparr>),
            st' @ [st' ! a])"
    using e dr by (simp add: RGSS_openRead_def raw_duplicate_def)
  have sta: "RGSS_stat d (fst (es ! i)) =
       (1, Some \<lparr>filesize = size_e (snd (es ! j)), modtime = 0, createtime = 0, accesstime = 0,
                 filetype = PHYSFS_FILETYPE_REGULAR, readonly = 1\<rparr>)"
    using e by (simp add: RGSS_stat_def)
  show ?thesis
    by (rule exI [of _ d], rule exI [of _ st']) (intro conjI oa e orr sta)
qed

theorem later_entry_wins_witness:
  "\<exists>d st'.
     RGSS_openArchive 4 ex_nameBuf [\<lparr>content = ex_bytes, pos = 0\<rparr>] (Ptr 0) False =
       Some (Inr (Some d, st')) \<and>
     entryHash d [0x61, 0x2F, 0x62] = Some \<lparr>offset = 32, size_e = 8, startMagic = 0x9A58C296\<rparr> \<and>
     RGSS_openRead st' d [0x61, 0x2F, 0x62] =
       Inr (Some ((RGSS_entryHandle_new \<lparr>offset = 32, size_e = 8, startMagic = 0x9A58C296\<rparr>)
                    \<lparr>io := Ptr (length st')\<rparr>),
            st' @ [st' ! 0]) \<and>
     RGSS_stat d [0x61, 0x2F, 0x62] =
       (1, Some \<lparr>filesize = 8, modtime = 0, createtime = 0, accesstime = 0,
                 filetype = PHYSFS_FILETYPE_REGULAR, readonly = 1\<rparr>)"
proof -
  have io: "io_deref [\<lparr>content = ex_bytes, pos = 0\<rparr>] (Ptr 0) = Some (0, \<lparr>content = ex_bytes, pos = 0\<rparr>)"
    by (simp add: io_deref_def)
  have h1: "readUint32 \<lparr>content = ex_bytes, pos = 0\<rparr> =
      (Some RGSS_HEADER_1, \<lparr>content = ex_bytes, pos = 4\<rparr>)"
    by (simp add: readUint32_def ex_bytes_def RGSS_HEADER_1_def)
  have h2: "readUint32 \<lparr>content = ex_bytes, pos = 4\<rparr> =
      (Some RGSS_HEADER_2, \<lparr>content = ex_bytes, pos = 8\<rparr>)"
    by (simp add: readUint32_def ex_bytes_def RGSS_HEADER_2_def)
  have ij: "(0 :: nat) < 1" by simp
  have j: "1 < length ex_table" by (simp add: ex_table_def)
  have same: "fst (ex_table ! 0) = fst (ex_table ! 1)" by (simp add: ex_table_def)
  have last: "\<forall>k. 1 < k \<and> k < length ex_table \<longrightarrow> fst (ex_table ! k) \<noteq> fst (ex_table ! 1)"
  proof (intro allI impI)
    fix k assume "1 < k \<and> k < length ex_table"
    then have "k = 2" by (simp add: ex_table_def)
    then show "fst (ex_table ! k) \<noteq> fst (ex_table ! 1)" by (simp add: ex_table_def)
  qed
  show ?thesis
    using later_entry_wins [OF io h1 h2 ex_table_walk ij j same last]
    by (simp add: ex_table_def)
qed

theorem read_entry_keystream_witness:
  "\<exists>key nameBuf'.
     read_entry 0xDEADCAFD \<lparr>content = ex_bytes, pos = 12\<rparr> 0xDEADCAFE ex_nameBuf =
       Inr (key, \<lparr>offset = 19, size_e = 2, startMagic = 0x63EA0A85\<rparr>, 3,
            \<lparr>content = ex_bytes, pos = 19\<rparr>, 0x63EA0A85, nameBuf') \<and>
     nameBuf' ! 3 = Some 0"
proof -
  have n: "unat (0xDEADCAFD XOR 0xDEADCAFE :: 32 word) = 3" by simp
  have fit: "unat (0xDEADCAFD XOR 0xDEADCAFE :: 32 word) < length ex_nameBuf"
    by (simp add: ex_nameBuf_def)
  have avail: "pos \<lparr>content = ex_bytes, pos = 12\<rparr> + unat (0xDEADCAFD XOR 0xDEADCAFE :: 32 word)
      \<le> length (content \<lparr>content = ex_bytes, pos = 12\<rparr>)"
    by (simp add: ex_bytes_def)
  have sz: "readUint32 (\<lparr>content = ex_bytes, pos = 12\<rparr>
        \<lparr>pos := pos \<lparr>content = ex_bytes, pos = 12\<rparr> + unat (0xDEADCAFD XOR 0xDEADCAFE :: 32 word)\<rparr>) =
      (Some 0x7BFCDCEC, \<lparr>content = ex_bytes, pos = 19\<rparr>)"
    by (simp add: readUint32_def ex_bytes_def)
  have "advance_times 4 0xDEADCAFE = 0x7BFCDCEE" by code_simp
  then have f4: "((\<lambda>m. m * 7 + 3) ^^ 4) (0xDEADCAFE :: 32 word) = 0x7BFCDCEE"
    by (simp only: advance_times_funpow)
  have "advance_times 5 0xDEADCAFE = 0x63EA0A85" by code_simp
  then have f5: "((\<lambda>m. m * 7 + 3) ^^ 5) (0xDEADCAFE :: 32 word) = 0x63EA0A85"
    by (simp only: advance_times_funpow)
  from read_entry_keystream [OF fit avail sz, unfolded n]
  obtain key nameBuf' where
    "read_entry 0xDEADCAFD \<lparr>content = ex_bytes, pos = 12\<rparr> 0xDEADCAFE ex_nameBuf =
       Inr (key,
            \<lparr>offset = raw_tell \<lparr>content = ex_bytes, pos = 19\<rparr>,
             size_e = ucast (0x7BFCDCEC XOR ((\<lambda>m. m * 7 + 3) ^^ (3 + 1)) (0xDEADCAFE :: 32 word)),
             startMagic = ((\<lambda>m. m * 7 + 3) ^^ (3 + 2)) 0xDEADCAFE\<rparr>,
            0xDEADCAFD XOR 0xDEADCAFE, \<lparr>content = ex_bytes, pos = 19\<rparr>,
            ((\<lambda>m. m * 7 + 3) ^^ (3 + 2)) 0xDEADCAFE, nameBuf')"
    and "nameBuf' ! 3 = Some 0"
    by blast
  then show ?thesis by (simp add: raw_tell_def f4 f5)
qed


subsection \<open>The parsing loop returns\<close>

text \<open>
  On a stream shorter than \<open>2^63\<close> bytes (the length of a PhysFS stream is a signed 64-bit
  number) every iteration moves the position forward, so fuel above the length of the stream
  is enough for the loop, and for \<^verbatim>\<open>RGSS_openArchive\<close>, to return.
\<close>

lemma readUint32_Some:
  assumes "readUint32 r = (Some w, r1)"
  shows "pos r + 4 \<le> length (content r)" and "r1 = r\<lparr>pos := pos r + 4\<rparr>"
proof -
  from assms have l: "length (take 4 (drop (pos r) (content r))) = 4"
    by (simp add: readUint32_def Let_def split: if_splits)
  then show "pos r + 4 \<le> length (content r)" by simp
  from assms l show "r1 = r\<lparr>pos := pos r + 4\<rparr>"
    by (simp add: readUint32_def Let_def split: if_splits)
qed

lemma read_entry_raw:
  assumes re: "read_entry w r magic nameBuf = Inr (key, entry, nameLen, r', magic3, nameBuf2)"
    and p: "pos r \<le> length (content r)"
  shows "content r' = content r" and "pos r + 4 \<le> pos r'" and "pos r' \<le> length (content r)"
    and "offset entry = word_of_nat (pos r')" and "unat (size_e entry) < 2 ^ 32"
proof -
  let ?n = "unat (w XOR magic)"
  from read_entry_Inr [OF re] have "0 + ?n \<le> length nameBuf" by simp
  from name_loop_ok [OF this, of r "magic * 7 + 3"] obtain r1 buf1 where
    nl: "name_loop ?n 0 r (magic * 7 + 3) nameBuf = Inr (r1, advance_times ?n (magic * 7 + 3), buf1)"
    by blast
  have r1: "r1 = r\<lparr>pos := max (pos r) (min (pos r + ?n) (length (content r)))\<rparr>"
    by (rule name_loop_raw [OF nl])
  from re nl obtain w3 where ru: "readUint32 r1 = (Some w3, r')"
    and en: "entry = \<lparr>offset = raw_tell r', size_e = ucast (w3 XOR advance_times ?n (magic * 7 + 3)),
                      startMagic = advance_times ?n (magic * 7 + 3) * 7 + 3\<rparr>"
    by (auto simp: read_entry_def advanceMagic_def Let_def
          split: prod.splits option.splits sum.splits if_splits)
  from readUint32_Some [OF ru] have a: "pos r1 + 4 \<le> length (content r1)"
    and b: "r' = r1\<lparr>pos := pos r1 + 4\<rparr>" by simp_all
  show "content r' = content r" using b r1 by simp
  show "pos r + 4 \<le> pos r'" using b r1 by simp
  show "pos r' \<le> length (content r)" using a b r1 by simp
  show "offset entry = word_of_nat (pos r')" using en by (simp add: raw_tell_def)
  have "unat (ucast (w3 XOR advance_times ?n (magic * 7 + 3)) :: 64 word) \<le>
      unat (w3 XOR advance_times ?n (magic * 7 + 3))"
    by (simp add: unsigned_ucast_eq take_bit_nat_less_eq_self)
  moreover have "unat (w3 XOR advance_times ?n (magic * 7 + 3)) < 2 ^ 32"
    using unsigned_less [of "w3 XOR advance_times ?n (magic * 7 + 3)"] by simp
  ultimately show "unat (size_e entry) < 2 ^ 32" using en by simp
qed

lemma parse_entry_advances:
  assumes pe: "parse_entry w r magic nameBuf d = Inr (r2, magic2, nameBuf2, d2)"
    and p: "pos r \<le> length (content r)" and small: "length (content r) < 2 ^ 63"
  shows "content r2 = content r" and "pos r + 4 \<le> pos r2"
proof -
  from pe obtain key entry nameLen r' magic3 buf where
    re: "read_entry w r magic nameBuf = Inr (key, entry, nameLen, r', magic3, buf)"
    and r2: "r2 = raw_seek r' (offset entry + size_e entry)"
    by (auto simp: parse_entry_def Let_def split: sum.splits prod.splits)
  note facts = read_entry_raw [OF re p]
  have "pos r' < 2 ^ 63" using facts(3) small by simp
  then have u: "unat (word_of_nat (pos r') :: 64 word) = pos r'"
    by (simp add: unat_of_nat take_bit_nat_eq_self)
  have "unat (word_of_nat (pos r') :: 64 word) + unat (size_e entry) < 2 ^ LENGTH(64)"
    using u \<open>pos r' < 2 ^ 63\<close> facts(5) by simp
  then have "unat (word_of_nat (pos r') + size_e entry :: 64 word) =
      unat (word_of_nat (pos r') :: 64 word) + unat (size_e entry)"
    by (simp only: unat_add_lem)
  then have "pos r2 = pos r' + unat (size_e entry)"
    using r2 facts(4) u by (simp add: raw_seek_def)
  then show "pos r + 4 \<le> pos r2" using facts(2) by simp
  show "content r2 = content r" using r2 facts(1) by (simp add: raw_seek_def)
qed

lemma parse_loop_enough_fuel:
  "length (content r) < 2 ^ 63 \<Longrightarrow> length (content r) - pos r < fuel \<Longrightarrow>
     parse_loop fuel r magic nameBuf d \<noteq> None"
proof (induction fuel arbitrary: r magic nameBuf d)
  case 0
  then show ?case by simp
next
  case (Suc fuel)
  obtain w0 r1 where ru: "readUint32 r = (w0, r1)" by (cases "readUint32 r")
  show ?case
  proof (cases w0)
    case None
    with ru show ?thesis by simp
  next
    case (Some w)
    from readUint32_Some [OF ru [unfolded Some]]
    have a: "pos r + 4 \<le> length (content r)" and r1: "r1 = r\<lparr>pos := pos r + 4\<rparr>" by simp_all
    show ?thesis
    proof (cases "parse_entry w r1 magic nameBuf d")
      case (Inl e)
      with ru Some show ?thesis by simp
    next
      case (Inr x)
      obtain r2 magic2 nameBuf2 d2 where x: "x = (r2, magic2, nameBuf2, d2)" by (cases x)
      have p1: "pos r1 \<le> length (content r1)" using a r1 by simp
      have s1: "length (content r1) < 2 ^ 63" using Suc.prems(1) r1 by simp
      from parse_entry_advances [OF Inr [unfolded x] p1 s1]
      have c2: "content r2 = content r" and p2: "pos r + 8 \<le> pos r2" using r1 by simp_all
      have "length (content r2) - pos r2 < fuel" using c2 p2 a Suc.prems(2) by simp
      moreover have "length (content r2) < 2 ^ 63" using c2 Suc.prems(1) by simp
      ultimately have "parse_loop fuel r2 magic2 nameBuf2 d2 \<noteq> None" by (rule Suc.IH [rotated])
      with ru Some Inr x show ?thesis by simp
    qed
  qed
qed

lemma RGSS_openArchive_returns:
  assumes "io_deref st p = Some (a, r)" and "length (content r) < 2 ^ 63"
  shows "RGSS_openArchive (Suc (length (content r))) nameBuf st p forWrite \<noteq> None"
proof -
  obtain h1 r1 where u1: "readUint32 r = (h1, r1)" by (cases "readUint32 r")
  obtain h2 r2 where u2: "readUint32 r1 = (h2, r2)" by (cases "readUint32 r1")
  have c: "content r2 = content r"
    using u1 u2 by (auto simp: readUint32_def Let_def split: if_splits)
  have "parse_loop (Suc (length (content r))) r2 RGSS_MAGIC nameBuf
          \<lparr>archiveIo = p, entryHash = Map.empty, dirHash = Map.empty\<rparr> \<noteq> None"
    using parse_loop_enough_fuel [of r2 "Suc (length (content r))"] c assms(2) by simp
  then show ?thesis
    using assms(1) u1 u2
    by (auto simp: RGSS_openArchive_def split: option.splits sum.splits)
qed

subsection \<open>Where the invariant of the keystream is kept\<close>

text \<open>
  A new handle satisfies the invariant, a read from a cursor inside the entry keeps it, and
  so does a seek that rewinds or whose target is not earlier within its block of four than
  the cursor is within its own. A duplicate carries the cursor of the handle it copies.
\<close>

lemma RGSS_entryHandle_new_magic_inv: "magic_inv (RGSS_entryHandle_new d)"
  by (simp add: magic_inv_def RGSS_entryHandle_new_def)

lemma RGSS_ioDuplicate_cursor:
  "data (RGSS_ioDuplicate entry) = data entry \<and>
   currentMagic (RGSS_ioDuplicate entry) = currentMagic entry \<and>
   currentOffset (RGSS_ioDuplicate entry) = currentOffset entry"
  by (simp add: RGSS_ioDuplicate_def RGSS_entryHandle_copy_def)

lemma magic_inv_advance_times:
  "magic_inv entry =
     (currentMagic entry = advance_times (unat (currentOffset entry) div 4) (startMagic (data entry)))"
  by (simp add: magic_inv_def advance_times_funpow)

lemma RGSS_ioRead_keeps_magic_inv:
  assumes inv: "magic_inv entry"
    and le: "currentOffset entry \<le> size_e (data entry)"
    and rd: "RGSS_ioRead st entry len = Inr (n, buffer, entry', st')"
  shows "magic_inv entry'"
proof -
  let ?cur = "currentOffset entry"
  let ?n = "min (size_e (data entry) - ?cur) len"
  from rd obtain a r where d: "io_deref st (io entry) = Some (a, r)"
    by (auto simp: RGSS_ioRead_def Let_def split: option.splits)
  let ?res = "read_loop ?cur (?cur + ?n) (currentMagic entry)
                (raw_seek r (offset (data entry) + ?cur))"
  from rd have e: "entry' = entry\<lparr>currentMagic := fst (snd ?res), currentOffset := ?cur + ?n\<rparr>"
    unfolding RGSS_ioRead_result [OF d] Let_def by blast
  have u: "unat (?cur + ?n) = unat ?cur + unat ?n" and c: "?cur \<le> ?cur + ?n"
    using clamp_no_wrap [OF le] by simp_all
  have "unat ?cur div 4 \<le> unat (?cur + ?n) div 4" using u by (simp add: div_le_mono)
  then have "fst (snd ?res) = advance_times (unat (?cur + ?n) div 4) (startMagic (data entry))"
    using read_loop_magic [OF c] inv
    by (simp add: magic_inv_advance_times advance_times_add)
  then show ?thesis by (simp add: magic_inv_advance_times e)
qed

lemma sub_div4:
  fixes a b :: nat
  assumes "a \<le> b" and "a mod 4 \<le> b mod 4"
  shows "(b - a) div 4 + a div 4 = b div 4"
proof -
  have a: "a = 4 * (a div 4) + a mod 4" by simp
  have b: "b = 4 * (b div 4) + b mod 4" by simp
  have q: "a div 4 \<le> b div 4" using assms(1) by (rule div_le_mono)
  have "b - a = 4 * (b div 4 - a div 4) + (b mod 4 - a mod 4)"
    using a b q assms(2) by (simp add: algebra_simps)
  moreover have "b mod 4 - a mod 4 < 4" by (simp add: less_imp_diff_less)
  ultimately have "(b - a) div 4 = b div 4 - a div 4" by simp
  then show ?thesis using q by simp
qed

lemma RGSS_ioSeek_keeps_magic_inv:
  assumes inv: "magic_inv entry"
    and sk: "RGSS_ioSeek st entry target = Inr (1, entry', st')"
    and al: "target < currentOffset entry \<or>
             unat (currentOffset entry) mod 4 \<le> unat target mod 4"
  shows "magic_inv entry'"
proof (cases "target = currentOffset entry")
  case True
  with sk inv show ?thesis by (simp add: RGSS_ioSeek_def)
next
  case ne: False
  show ?thesis
  proof (cases "target < currentOffset entry")
    case True
    with sk ne have "entry' = entry\<lparr>currentOffset := target,
        currentMagic := advance_times (unat (target div 4)) (startMagic (data entry))\<rparr>"
      by (auto simp: RGSS_ioSeek_def Let_def split: if_splits option.splits)
    then show ?thesis by (simp add: magic_inv_advance_times unat_div)
  next
    case False
    with ne have le: "currentOffset entry \<le> target" by simp
    from sk ne False have e: "entry' = entry\<lparr>currentOffset := target,
        currentMagic := advance_times (unat ((target - currentOffset entry) div 4))
                          (currentMagic entry)\<rparr>"
      by (auto simp: RGSS_ioSeek_def Let_def split: if_splits option.splits)
    have s: "unat (target - currentOffset entry) = unat target - unat (currentOffset entry)"
      using le by (rule unat_sub)
    have l: "unat (currentOffset entry) \<le> unat target" using le by (simp add: word_le_nat_alt)
    from al False have m: "unat (currentOffset entry) mod 4 \<le> unat target mod 4" by simp
    have "(unat target - unat (currentOffset entry)) div 4 + unat (currentOffset entry) div 4 =
        unat target div 4"
      by (rule sub_div4 [OF l m])
    then show ?thesis using inv
      by (simp add: magic_inv_advance_times e unat_div s advance_times_add)
  qed
qed

text \<open>
  While the invariant holds, what a read decodes depends on the absolute offset alone: the
  byte at offset \<open>o\<close> is the raw byte XOR the byte \<open>o mod 4\<close> of the start word advanced
  \<open>o div 4\<close> times, whatever reads and seeks led to the cursor.
\<close>

lemma RGSS_ioRead_absolute:
  assumes inv: "magic_inv entry"
    and le: "currentOffset entry \<le> size_e (data entry)"
    and rd: "RGSS_ioRead st entry len = Inr (n, buffer, entry', st')"
    and d: "io_deref st (io entry) = Some (a, r)"
    and k: "k < length buffer"
  shows "buffer ! k =
     map_option
       (\<lambda>b. b XOR (ucast (drop_bit (8 * ((unat (currentOffset entry) + k) mod 4))
                (((\<lambda>m. m * 7 + 3) ^^ ((unat (currentOffset entry) + k) div 4))
                   (startMagic (data entry))) AND 0xFF) :: byte))
       (if unat (offset (data entry) + currentOffset entry) + k < length (content r)
        then Some (content r ! (unat (offset (data entry) + currentOffset entry) + k))
        else None)"
proof -
  let ?cur = "currentOffset entry"
  let ?n = "min (size_e (data entry) - ?cur) len"
  let ?res = "read_loop ?cur (?cur + ?n) (currentMagic entry)
                (raw_seek r (offset (data entry) + ?cur))"
  from rd have b: "buffer = fst ?res"
    unfolding RGSS_ioRead_result [OF d] Let_def by blast
  have u: "unat (?cur + ?n) = unat ?cur + unat ?n" and c: "?cur \<le> ?cur + ?n"
    using clamp_no_wrap [OF le] by simp_all
  have "length (fst ?res) = unat (?cur + ?n) - unat ?cur" by (rule read_loop_length [OF c])
  with k b have kk: "k < unat (?cur + ?n) - unat ?cur" by simp
  have "unat ?cur div 4 \<le> (unat ?cur + k) div 4" by (simp add: div_le_mono)
  then have "advance_times ((unat ?cur + k) div 4 - unat ?cur div 4) (currentMagic entry) =
      advance_times ((unat ?cur + k) div 4) (startMagic (data entry))"
    using inv by (simp add: magic_inv_advance_times advance_times_add)
  with read_loop_nth [OF kk, of "currentMagic entry" "raw_seek r (offset (data entry) + ?cur)"]
  show ?thesis by (simp add: b advance_times_funpow raw_seek_def)
qed

end
